theory Spec2Isabelle
  imports Main "HOL-Library.Word" "HOL-Library.Monad_Syntax"
begin

unbundle bit_operations_syntax

section \<open>Data model of the LFU shard (package vectormap)\<close>

text \<open>
  The shard \<open>LFUMap\<close> and its operations are translated from the Go source
  (\<open>LFUMap.Has/Get/Put/PutMultiValue/RePut/Delete/Clear/rehash/Eliminate/GCCopy\<close> and the
  match primitives \<open>metaMatchH2\<close>, \<open>metaMatchEmpty\<close>, \<open>nextMatch\<close>).

  Conventions of the model.
  \<^item> \<open>uint32\<close>, \<open>uint64\<close>, \<open>uint16\<close>, \<open>uint8\<close>/\<open>int8\<close> are words of that width; \<open>+\<close>, \<open>-\<close>,
    \<open>*\<close> wrap as in Go, \<open>div\<close> is unsigned division, comparisons are unsigned.
  \<^item> A Go slice is a list. An index or a slice expression out of range panics in Go; helper
    functions that read or write the arena return \<open>None\<close> for that panic.
  \<^item> The fixed arrays \<open>[16]int8\<close>, \<open>[16]uint8\<close>, \<open>[16]kIdx\<close> are lists; that every row has
    16 entries is part of the shape predicate \<open>shape\<close> below.
  \<^item> Group and slot indices are natural numbers (in Go \<open>uint32\<close> values below the table
    size).
  \<^item> Locks, the slab pool behind the arena and the byte pool behind returned values are
    not modelled: every operation is run alone, from its first statement to its return.
\<close>

type_synonym byte = "8 word"
type_synonym uint32 = "32 word"
type_synonym uint64 = "64 word"
type_synonym bitset = "16 word"
type_synonym kIdx = "32 word"
type_synonym metadata = "8 word list"
type_synonym counter = "8 word list"
type_synonym group = "kIdx list"

text \<open>
  The three outcomes of running an operation: it returns, it panics (a slice or index
  out of range), or its probe loop never exits.
\<close>

datatype 'a outcome = Return 'a | Panic | NoReturn

subsection \<open>Constants\<close>

text \<open>\<open>groupSize\<close> and \<open>maxAvgGroupLoad\<close> are declared next to the match primitives.\<close>

definition groupSize :: nat where
  "groupSize = 16"

definition maxAvgGroupLoad :: uint32 where
  "maxAvgGroupLoad = 14"

text \<open>
  Modelled from the spec: the control bytes \<open>empty\<close> and \<open>tombstone\<close> are declared outside
  the given sources; the spec gives \<open>EMPTY = -128\<close> and \<open>TOMBSTONE = -2\<close> as signed bytes.
\<close>

definition empty_meta :: "8 word" where
  "empty_meta = 0x80"

definition tombstone :: "8 word" where
  "tombstone = 0xFE"

text \<open>Modelled from the spec: \<open>MAX_COUNT = 255\<close>, the saturation value of a counter.\<close>

definition maxCount :: "8 word" where
  "maxCount = 255"

text \<open>
  Modelled from the spec: the bit layout of the two descriptor words. Word A (\<open>kIdx\<close>)
  keeps the key offset in its low 24 bits, the capacity or high size bits in bits 24..30
  and the value type in bit 31; Word B keeps the value offset in its low 24 bits and the
  low 8 bits of the size in bits 24..31. Offsets are in units of 4 bytes
  (\<open>storeUintBytes\<close>).
\<close>

definition IdxOffsetMask :: uint32 where
  "IdxOffsetMask = 0x00FFFFFF"

definition IdxSmallSizeMask :: uint32 where
  "IdxSmallSizeMask = 0xFF000000"

definition mapTypeHeader :: uint32 where
  "mapTypeHeader = 0x80000000"

definition storeUintBytes :: uint32 where
  "storeUintBytes = 4"

text \<open>
  The size thresholds \<open>overShortSize\<close>, \<open>overLongSize\<close>, \<open>limitSize\<close> and the two header
  constants of the long layout are declared outside the given sources. They are taken
  as parameters of the operations that use them.
\<close>

record vconsts =
  overShortSize :: uint32
  overLongSize :: uint32
  limitSize :: uint32
  overLongStoreHeaderH :: uint32
  overLongStoreHeaderL :: uint32

subsection \<open>The arena \<open>kvHolder\<close> and the shard \<open>LFUMap\<close>\<close>

text \<open>
  Modelled from the spec: the type \<open>kvHolder\<close> is declared outside the given sources. The
  fields below are the ones the shard operations read and write.
\<close>

record kvHolder =
  data :: "byte list"
  tail :: uint32
  cap :: uint32
  kvlimit :: uint32
  items :: uint32
  valUsed :: uint32

record LFUMap =
  kvHolder :: kvHolder
  ctrl :: "metadata list"
  counters :: "counter list"
  groups :: "group list"
  resident :: uint32
  dead :: uint32
  limit :: uint32
  queryCnt :: uint64
  missCnt :: uint64
  rehashing :: bool

subsection \<open>Descriptor words and arena access\<close>

text \<open>
  Modelled from the spec: the methods \<open>offset\<close>, \<open>valType\<close> and \<open>capOrBigSize\<close> of \<open>kIdx\<close>
  follow the bit layout of Word A.
\<close>

definition offset :: "kIdx \<Rightarrow> uint32" where
  "offset i = i AND IdxOffsetMask"

definition valType :: "kIdx \<Rightarrow> uint32" where
  "valType i = drop_bit 31 i"

definition capOrBigSize :: "kIdx \<Rightarrow> uint32" where
  "capOrBigSize i = drop_bit 24 i AND 0x7F"

text \<open>Modelled from the spec: \<open>Cap4Size(n) = ceil(n/4)*4\<close>.\<close>

definition Cap4Size :: "uint32 \<Rightarrow> uint32" where
  "Cap4Size n = (n + 3) div 4 * 4"

text \<open>
  Modelled from the spec: \<open>LoadUint32\<close> and \<open>StoreUint32\<close> read and write one 32-bit word
  in the first four bytes of a slice. The byte order is little-endian (the sources are
  built for amd64). \<open>LoadUint32_at d off\<close> is \<open>LoadUint32(d[off:])\<close>.
\<close>

definition LoadUint32_at :: "byte list \<Rightarrow> nat \<Rightarrow> uint32 option" where
  "LoadUint32_at d off =
     (if off + 4 \<le> length d
      then Some (word_rcat [d ! (off + 3), d ! (off + 2), d ! (off + 1), d ! off])
      else None)"

definition uint32_bytes :: "uint32 \<Rightarrow> byte list" where
  "uint32_bytes v = [ucast v, ucast (drop_bit 8 v), ucast (drop_bit 16 v), ucast (drop_bit 24 v)]"

text \<open>\<open>copy_at d off src\<close> is Go's \<open>copy(d[off:], src)\<close>: it copies as many bytes as fit.\<close>

definition copy_at :: "byte list \<Rightarrow> nat \<Rightarrow> byte list \<Rightarrow> byte list option" where
  "copy_at d off src =
     (if off \<le> length d
      then Some (take off d @ take (length d - off) src @ drop (off + length src) d)
      else None)"

definition StoreUint32_at :: "byte list \<Rightarrow> nat \<Rightarrow> uint32 \<Rightarrow> byte list option" where
  "StoreUint32_at d off v =
     (if off + 4 \<le> length d then copy_at d off (uint32_bytes v) else None)"

text \<open>\<open>slice d lo hi\<close> is the slice expression \<open>d[lo:hi]\<close>.\<close>

definition slice :: "byte list \<Rightarrow> nat \<Rightarrow> nat \<Rightarrow> byte list option" where
  "slice d lo hi = (if lo \<le> hi \<and> hi \<le> length d then Some (take (hi - lo) (drop lo d)) else None)"

text \<open>
  Modelled from the spec: \<open>kvHolder.getKey\<close> returns the 16 key bytes at the key offset
  of the descriptor.
\<close>

definition getKey :: "kvHolder \<Rightarrow> kIdx \<Rightarrow> byte list option" where
  "getKey kv i = slice (data kv) (unat (offset i * 4)) (unat (offset i * 4) + 16)"


text \<open>
  Modelled from the spec: \<open>splitHash\<close> gives \<open>H1 = L >> 7\<close> and \<open>H2 = L & 0x7F\<close>, and the probe
  starts at group \<open>H1 mod G\<close>.
\<close>

definition splitHash :: "uint64 \<Rightarrow> uint64 \<times> 8 word" where
  "splitHash l = (drop_bit 7 l, ucast (l AND 0x7F))"

definition probeStart :: "uint64 \<Rightarrow> nat \<Rightarrow> nat" where
  "probeStart hi n = unat hi mod n"

subsection \<open>Match primitives\<close>

text \<open>
  Modelled from the spec: \<open>simd.MatchMetadata\<close> returns the 16-bit mask of the slots whose
  control byte equals the given byte (bit \<open>i\<close> for slot \<open>i\<close>).
\<close>

definition MatchMetadata :: "metadata \<Rightarrow> 8 word \<Rightarrow> bitset" where
  "MatchMetadata md h = horner_sum of_bool 2 (map (\<lambda>x. x = h) md)"

definition metaMatchH2 :: "metadata \<Rightarrow> 8 word \<Rightarrow> bitset" where
  "metaMatchH2 md h = MatchMetadata md h"

definition metaMatchEmpty :: "metadata \<Rightarrow> bitset" where
  "metaMatchEmpty md = MatchMetadata md empty_meta"

text \<open>\<open>bits.TrailingZeros16\<close> of the Go library: 16 for the argument 0.\<close>

definition TrailingZeros16 :: "16 word \<Rightarrow> nat" where
  "TrailingZeros16 x = length (takeWhile (\<lambda>i. \<not> bit x i) [0..<16])"

text \<open>\<open>nextMatch\<close> returns the lowest set bit and clears it in the mask.\<close>

definition nextMatch :: "bitset \<Rightarrow> nat \<times> bitset" where
  "nextMatch b = (let s = TrailingZeros16 b in (s, b AND NOT (push_bit s 1)))"

lemma bit_MatchMetadata:
  "bit (MatchMetadata md h) i \<longleftrightarrow> i < 16 \<and> i < length md \<and> md ! i = h"
  by (auto simp: MatchMetadata_def bit_horner_sum_bit_word_iff)

lemma TrailingZeros16_le: "TrailingZeros16 b \<le> 16"
  unfolding TrailingZeros16_def
  by (metis length_takeWhile_le length_upt diff_zero)

lemma TrailingZeros16_lt:
  assumes "b \<noteq> 0"
  shows "TrailingZeros16 b < 16"
proof (rule ccontr)
  assume "\<not> TrailingZeros16 b < 16"
  then have "length (takeWhile (\<lambda>i. \<not> bit b i) [0..<16]) = length [0..<16::nat]"
    using TrailingZeros16_le [of b] by (simp add: TrailingZeros16_def)
  then have "takeWhile (\<lambda>i. \<not> bit b i) [0..<16] = [0..<16]"
    by (metis takeWhile_eq_take take_all order_refl)
  then have "\<forall>i\<in>set [0..<16]. \<not> bit b i"
    by (metis set_takeWhileD)
  then have "\<forall>i. \<not> bit b i"
    using bit_imp_le_length [of b] by fastforce
  then have "b = 0" by (simp add: bit_eq_iff)
  with assms show False by simp
qed

lemma bit_TrailingZeros16: "b \<noteq> 0 \<Longrightarrow> bit b (TrailingZeros16 b)"
  using TrailingZeros16_lt [of b] nth_length_takeWhile [of "\<lambda>i. \<not> bit b i" "[0..<16]"]
  by (simp add: TrailingZeros16_def)

lemma TrailingZeros16_least:
  assumes "i < TrailingZeros16 b"
  shows "\<not> bit b i"
proof -
  let ?tw = "takeWhile (\<lambda>i. \<not> bit b i) [0..<16]"
  have "i < length ?tw" using assms by (simp add: TrailingZeros16_def)
  then have "?tw ! i \<in> set ?tw" by simp
  moreover have "?tw ! i = [0..<16] ! i"
    using assms by (simp add: TrailingZeros16_def takeWhile_nth)
  moreover have "i < 16" using assms TrailingZeros16_le [of b] by simp
  ultimately have "i \<in> set ?tw" by simp
  then show ?thesis by (metis set_takeWhileD)
qed

lemma fst_nextMatch: "fst (nextMatch b) = TrailingZeros16 b"
  by (simp add: nextMatch_def Let_def)

lemma bit_nextMatch:
  "bit (snd (nextMatch b)) i \<longleftrightarrow> bit b i \<and> i \<noteq> TrailingZeros16 b"
  by (auto simp: nextMatch_def Let_def bit_simps dest: bit_imp_le_length)

lemma nextMatch_less:
  assumes "b \<noteq> 0"
  shows "unat (snd (nextMatch b)) < unat b"
proof -
  have le: "snd (nextMatch b) \<le> b"
    by (simp add: nextMatch_def Let_def word_and_le2)
  have "snd (nextMatch b) \<noteq> b"
    using bit_TrailingZeros16 [OF assms] bit_nextMatch [of b "TrailingZeros16 b"] by auto
  with le show ?thesis by (simp add: word_less_nat_alt [symmetric])
qed

subsection \<open>The probe loop\<close>

text \<open>
  The inner loop \<open>for matches != 0 { s := nextMatch(&matches); ... }\<close> of every operation:
  it visits the slots of the mask from the lowest bit up and stops at the first slot whose
  key matches. \<open>kmatch s\<close> is the key test of slot \<open>s\<close> (\<open>None\<close> when reading the key
  panics).
\<close>

datatype scan_result = Found nat | NotFound | ScanPanic

function scan :: "(nat \<Rightarrow> bool option) \<Rightarrow> bitset \<Rightarrow> scan_result" where
  "scan kmatch matches =
     (if matches = 0 then NotFound
      else let (s, matches') = nextMatch matches in
        case kmatch s of
          None \<Rightarrow> ScanPanic
        | Some True \<Rightarrow> Found s
        | Some False \<Rightarrow> scan kmatch matches')"
  by pat_completeness auto
termination
  by (relation "measure (\<lambda>(kmatch, matches). unat matches)")
     (auto, metis nextMatch_less snd_conv)

declare scan.simps [simp del]

text \<open>
  The outer loop \<open>for { ... g += 1; if g >= uint32(len(m.groups)) { g = 0 } }\<close>. It is the
  same text in \<open>Has\<close>, \<open>Put\<close>, \<open>PutMultiValue\<close>, \<open>RePut\<close> and \<open>Delete\<close> up to what is done at a
  matching key (\<open>Hit\<close>) and at a group with an empty slot (\<open>Miss\<close>), so it is modelled
  once. The loop has no bound: when no group on the way has a matching key or an empty
  slot it never exits, and \<open>probe\<close> is \<open>None\<close>.
\<close>

datatype probe_result = Hit nat nat | Miss nat | ProbePanic

text \<open>\<open>g += 1; if g >= uint32(len(m.groups)) { g = 0 }\<close>\<close>

definition next_group :: "nat \<Rightarrow> nat \<Rightarrow> nat" where
  "next_group n g = (if g + 1 \<ge> n then 0 else g + 1)"

partial_function (option) probe ::
  "(kIdx \<Rightarrow> bool option) \<Rightarrow> metadata list \<Rightarrow> group list \<Rightarrow> 8 word \<Rightarrow> nat \<Rightarrow> probe_result option"
where
  "probe kmatch ct gs lo g =
     (if g \<ge> length ct then Some ProbePanic
      else case scan (\<lambda>s. if g < length gs then kmatch (gs ! g ! s) else None)
                     (metaMatchH2 (ct ! g) lo) of
          ScanPanic \<Rightarrow> Some ProbePanic
        | Found s \<Rightarrow> Some (Hit g s)
        | NotFound \<Rightarrow>
            if metaMatchEmpty (ct ! g) \<noteq> 0 then Some (Miss g)
            else probe kmatch ct gs lo (next_group (length gs) g))"

declare probe.simps [code]

text \<open>The key test \<open>bytes.Equal(key, m.kvHolder.getKey(m.groups[g][s]))\<close>.\<close>

definition key_equal :: "kvHolder \<Rightarrow> byte list \<Rightarrow> kIdx \<Rightarrow> bool option" where
  "key_equal kv key i = map_option (\<lambda>k. key = k) (getKey kv i)"

text \<open>
  The probe of \<open>Has\<close>, \<open>Put\<close>, \<open>PutMultiValue\<close>, \<open>RePut\<close> and \<open>Delete\<close> for a hash and a key:
  \<open>hi, lo := splitHash(l); g := probeStart(hi, len(m.groups)); for { ... }\<close>.
\<close>

definition find_slot :: "LFUMap \<Rightarrow> uint64 \<Rightarrow> byte list \<Rightarrow> probe_result option" where
  "find_slot m l key =
     (let (hi, lo) = splitHash l;
          g = probeStart hi (length (groups m))
      in probe (key_equal (kvHolder m) key) (ctrl m) (groups m) lo g)"

subsection \<open>Put\<close>

definition set2 :: "'a list list \<Rightarrow> nat \<Rightarrow> nat \<Rightarrow> 'a \<Rightarrow> 'a list list" where
  "set2 xss g s v = xss[g := (xss ! g)[s := v]]"

text \<open>
  The four statements \<open>m.ctrl[g][s] = tombstone; m.dead++; m.counters[g][s] = 0;
  m.kvHolder.items--\<close> of every failing update.
\<close>

definition tombstone_slot :: "LFUMap \<Rightarrow> nat \<Rightarrow> nat \<Rightarrow> LFUMap option" where
  "tombstone_slot m g s =
     (if g < length (ctrl m) \<and> g < length (counters m)
      then Some (m\<lparr>ctrl := set2 (ctrl m) g s tombstone,
                   dead := dead m + 1,
                   counters := set2 (counters m) g s 0,
                   kvHolder := (kvHolder m)\<lparr>items := items (kvHolder m) - 1\<rparr>\<rparr>)
      else None)"

text \<open>
  The block that takes the capacity of the old value off \<open>valUsed\<close>
  (\<open>if vType == 0 { ... } else { ... }\<close>); it is repeated in every appending branch.
\<close>

definition release_old :: "vconsts \<Rightarrow> kvHolder \<Rightarrow> kIdx \<Rightarrow> uint32 \<Rightarrow> kvHolder option" where
  "release_old c kv idx vHeader =
     (if valType idx = 0 then Some (kv\<lparr>valUsed := valUsed kv - capOrBigSize idx\<rparr>)
      else
        let vBig = capOrBigSize idx;
            vSize = drop_bit 24 (vHeader AND IdxSmallSizeMask) + push_bit 8 vBig
        in if vSize = overLongSize c
           then do {
             let vOffset = (vHeader AND IdxOffsetMask) * 4;
             vSize' \<leftarrow> LoadUint32_at (data kv) (unat vOffset);
             Some (kv\<lparr>valUsed := valUsed kv - (Cap4Size vSize' + 4)\<rparr>)
           }
           else Some (kv\<lparr>valUsed := valUsed kv - Cap4Size vSize\<rparr>))"

text \<open>What \<open>Put\<close> does at the slot \<open>(g, s)\<close> whose key matched.\<close>

definition Put_found :: "vconsts \<Rightarrow> LFUMap \<Rightarrow> nat \<Rightarrow> nat \<Rightarrow> byte list \<Rightarrow> (bool \<times> LFUMap) option" where
  "Put_found c m g s val = do {
     let idx = groups m ! g ! s;
     let kOffset = offset idx * 4;
     let kEnd = kOffset + 16;
     vHeader \<leftarrow> LoadUint32_at (data (kvHolder m)) (unat kEnd);
     let vType = valType idx;
     let lv = (of_nat (length val) :: uint32);
     if lv \<ge> limitSize c then do {
       m1 \<leftarrow> tombstone_slot m g s;
       kv1 \<leftarrow> release_old c (kvHolder m1) idx vHeader;
       Some (False, m1\<lparr>kvHolder := kv1\<rparr>)
     } else if lv \<ge> overLongSize c then do {
       let vCap = Cap4Size lv + 4;
       let ntail = tail (kvHolder m) + 20 + vCap;
       kv1 \<leftarrow> release_old c (kvHolder m) idx vHeader;
       if ntail > cap kv1 then do {
         m1 \<leftarrow> tombstone_slot (m\<lparr>kvHolder := kv1\<rparr>) g s;
         Some (False, m1)
       } else do {
         let vOffset = tail kv1;
         d1 \<leftarrow> StoreUint32_at (data kv1) (unat vOffset) lv;
         d2 \<leftarrow> copy_at d1 (unat (vOffset + 4)) val;
         let gs1 = set2 (groups m) g s
                     (kOffset div storeUintBytes + overLongStoreHeaderH c + mapTypeHeader);
         d3 \<leftarrow> StoreUint32_at d2 (unat kEnd) (vOffset div storeUintBytes + overLongStoreHeaderL c);
         Some (True, m\<lparr>groups := gs1,
                        kvHolder := kv1\<lparr>data := d3, tail := ntail, valUsed := valUsed kv1 + vCap\<rparr>\<rparr>)
       }
     } else if lv \<ge> overShortSize c then do {
       let vCap = Cap4Size lv;
       let ntail = tail (kvHolder m) + vCap;
       kv1 \<leftarrow> release_old c (kvHolder m) idx vHeader;
       if ntail > cap kv1 then do {
         m1 \<leftarrow> tombstone_slot (m\<lparr>kvHolder := kv1\<rparr>) g s;
         Some (False, m1)
       } else do {
         let vBig = drop_bit 8 (lv AND 0x7f00);
         let vSmall = lv AND 0xff;
         d1 \<leftarrow> copy_at (data kv1) (unat (tail kv1)) val;
         let gs1 = set2 (groups m) g s (kOffset div 4 + push_bit 24 vBig + mapTypeHeader);
         d2 \<leftarrow> StoreUint32_at d1 (unat kEnd) (tail kv1 div 4 + push_bit 24 vSmall);
         Some (True, m\<lparr>groups := gs1,
                        kvHolder := kv1\<lparr>data := d2, tail := ntail, valUsed := valUsed kv1 + vCap\<rparr>\<rparr>)
       }
     } else if vType = 0 \<and> lv \<le> capOrBigSize idx * 4 \<and> lv < overShortSize c then do {
       let vOffset = vHeader AND IdxOffsetMask;
       d1 \<leftarrow> StoreUint32_at (data (kvHolder m)) (unat kEnd) (vOffset + push_bit 24 lv);
       d2 \<leftarrow> copy_at d1 (unat (vOffset * 4)) val;
       Some (True, m\<lparr>kvHolder := (kvHolder m)\<lparr>data := d2\<rparr>\<rparr>)
     } else do {
       let vCap = Cap4Size lv;
       let ntail = tail (kvHolder m) + vCap;
       kv1 \<leftarrow> release_old c (kvHolder m) idx vHeader;
       if ntail > cap kv1 then do {
         m1 \<leftarrow> tombstone_slot (m\<lparr>kvHolder := kv1\<rparr>) g s;
         Some (False, m1\<lparr>groups := set2 (groups m1) g s 0\<rparr>)
       } else do {
         d1 \<leftarrow> copy_at (data kv1) (unat (tail kv1)) val;
         let gs1 = set2 (groups m) g s (kOffset div 4 + push_bit 24 (vCap div 4));
         d2 \<leftarrow> StoreUint32_at d1 (unat kEnd) (tail kv1 div 4 + push_bit 24 lv);
         Some (True, m\<lparr>groups := gs1,
                        kvHolder := kv1\<lparr>data := d2, tail := ntail, valUsed := valUsed kv1 + vCap\<rparr>\<rparr>)
       }
     }
   }"

text \<open>
  \<open>Put\<close>: the probe, then the update at a matching key; at a group with an empty slot it
  returns \<open>false\<close>.
\<close>

definition Put :: "vconsts \<Rightarrow> LFUMap \<Rightarrow> uint64 \<Rightarrow> byte list \<Rightarrow> byte list \<Rightarrow> (bool \<times> LFUMap) outcome" where
  "Put c m l key val =
     (case find_slot m l key of
        None \<Rightarrow> NoReturn
      | Some ProbePanic \<Rightarrow> Panic
      | Some (Miss g) \<Rightarrow> Return (False, m)
      | Some (Hit g s) \<Rightarrow>
          (case Put_found c m g s val of None \<Rightarrow> Panic | Some r \<Rightarrow> Return r))"


subsection \<open>Delete\<close>

text \<open>
  Modelled from the spec: \<open>kvHolder.del\<close> marks the arena slot of a descriptor dead and
  decrements \<open>items\<close>; the bytes of the slot stay in the arena as garbage
  (\<open>garbage = tail - (items*20 + val_used)\<close> grows with the decrement).
\<close>

definition del :: "kvHolder \<Rightarrow> kIdx \<Rightarrow> kvHolder" where
  "del kv i = kv\<lparr>items := items kv - 1\<rparr>"

text \<open>What \<open>Delete\<close> does at the slot \<open>(g, s)\<close> whose key matched.\<close>

definition Delete_found :: "LFUMap \<Rightarrow> nat \<Rightarrow> nat \<Rightarrow> LFUMap option" where
  "Delete_found m g s =
     (if g < length (counters m) then
        let kv1 = del (kvHolder m) (groups m ! g ! s);
            m1 = (if metaMatchEmpty (ctrl m ! g) \<noteq> 0
                  then m\<lparr>ctrl := set2 (ctrl m) g s empty_meta, resident := resident m - 1\<rparr>
                  else m\<lparr>ctrl := set2 (ctrl m) g s tombstone, dead := dead m + 1\<rparr>)
        in Some (m1\<lparr>counters := set2 (counters m) g s 0, kvHolder := kv1\<rparr>)
      else None)"

definition Delete :: "LFUMap \<Rightarrow> uint64 \<Rightarrow> byte list \<Rightarrow> (bool \<times> LFUMap) outcome" where
  "Delete m l key =
     (case find_slot m l key of
        None \<Rightarrow> NoReturn
      | Some ProbePanic \<Rightarrow> Panic
      | Some (Miss g) \<Rightarrow> Return (False, m)
      | Some (Hit g s) \<Rightarrow>
          (case Delete_found m g s of None \<Rightarrow> Panic | Some m' \<Rightarrow> Return (True, m')))"

subsection \<open>Introspection\<close>

definition UsedMem :: "LFUMap \<Rightarrow> uint32" where
  "UsedMem m = tail (kvHolder m)"

definition Items :: "LFUMap \<Rightarrow> uint32" where
  "Items m = items (kvHolder m)"

text \<open>\<open>Count\<close> returns \<open>int(m.resident - m.dead)\<close>: the 32-bit difference, read unsigned.\<close>

definition Count :: "LFUMap \<Rightarrow> int" where
  "Count m = uint (resident m - dead m)"

subsection \<open>Eliminate\<close>

text \<open>
  The guards of \<open>Eliminate\<close> compare 32-bit floating point numbers, and the counter
  selection \<open>BuildMinTopCounter\<close> is outside the given sources. They are parameters of
  the model, each a function of exactly what the Go expression reads:
  \<^item> \<open>missRateBelow miss qc\<close> is \<open>float32(miss)/float32(qc) < eliminateMissRate\<close>;
  \<^item> \<open>itemsMemUsageBelow kv\<close> is \<open>m.itemsMemUsage() < eliminateStart\<close>;
  \<^item> \<open>dropCount items\<close> is
    \<open>int(math.Ceil(float64(float32(items) * (eliminateStart - eliminateEnd) / eliminateStart)))\<close>;
  \<^item> \<open>BuildMinTopCounter ctrl counters n\<close> returns the chosen slots and the threshold \<open>x\<close>.
\<close>

record policy =
  missRateBelow :: "uint64 \<Rightarrow> uint64 \<Rightarrow> bool"
  itemsMemUsageBelow :: "kvHolder \<Rightarrow> bool"
  dropCount :: "uint32 \<Rightarrow> int"
  BuildMinTopCounter :: "metadata list \<Rightarrow> counter list \<Rightarrow> int \<Rightarrow> (nat \<times> nat) list \<times> 8 word"

text \<open>
  Modelled from the spec: the skip codes \<open>skipReason1\<close>, \<open>skipReason2\<close>, \<open>skipReason3\<close> are
  declared outside the given sources; \<open>noSkip\<close> is the zero value that the result keeps
  when no guard fires.
\<close>

datatype skipReason = noSkip | skipReason1 | skipReason2 | skipReason3

text \<open>The loop \<open>for i := range item { ... }\<close> that tombstones the chosen slots.\<close>

fun Eliminate_items :: "LFUMap \<Rightarrow> int \<Rightarrow> (nat \<times> nat) list \<Rightarrow> (LFUMap \<times> int) option" where
  "Eliminate_items m delCount [] = Some (m, delCount)"
| "Eliminate_items m delCount ((g, s) # rest) =
     (if g < length (ctrl m) \<and> s < length (ctrl m ! g) then
        if ctrl m ! g ! s = tombstone \<or> ctrl m ! g ! s = empty_meta
        then Eliminate_items m delCount rest
        else if g < length (groups m) \<and> s < length (groups m ! g) then
          Eliminate_items
            (m\<lparr>kvHolder := del (kvHolder m) (groups m ! g ! s),
               groups := set2 (groups m) g s 0,
               ctrl := set2 (ctrl m) g s tombstone,
               dead := dead m + 1\<rparr>)
            (delCount + 1) rest
        else None
      else None)"

text \<open>
  Modelled from the spec: \<open>simd.MSubs128epu8\<close> subtracts the level from each of the 16
  counters of a row and saturates at 0.
\<close>

definition MSubs128epu8 :: "counter \<Rightarrow> 8 word \<Rightarrow> counter" where
  "MSubs128epu8 row x = map (\<lambda>v. if v < x then 0 else v - x) row"

text \<open>The loop \<open>for i := 0; i < ctrLen; i++\<close> over the counter rows.\<close>

definition age_counters :: "8 word \<Rightarrow> nat \<Rightarrow> counter list \<Rightarrow> counter list option" where
  "age_counters x ctrLen cs =
     (if ctrLen \<le> length cs
      then Some (map (\<lambda>row. MSubs128epu8 row x) (take ctrLen cs) @ drop ctrLen cs)
      else None)"

definition Eliminate :: "policy \<Rightarrow> LFUMap \<Rightarrow> ((int \<times> skipReason) \<times> LFUMap) outcome" where
  "Eliminate p m =
     (let qc = queryCnt m in
      if qc > 0 \<and> missRateBelow p (missCnt m) qc then Return ((0, skipReason1), m)
      else if itemsMemUsageBelow p (kvHolder m) then Return ((0, skipReason2), m)
      else
        let n = dropCount p (items (kvHolder m)) in
        if n = 0 then Return ((0, skipReason3), m)
        else
          let (item, x) = BuildMinTopCounter p (ctrl m) (counters m) n in
          case Eliminate_items m 0 item of
            None \<Rightarrow> Panic
          | Some (m1, delCount) \<Rightarrow>
              (case age_counters x (length (ctrl m1)) (counters m1) of
                 None \<Rightarrow> Panic
               | Some cs \<Rightarrow> Return ((delCount, noSkip), m1\<lparr>counters := cs\<rparr>)))"

text \<open>The three guards, as conditions on the shard.\<close>

definition guard1 :: "policy \<Rightarrow> LFUMap \<Rightarrow> bool" where
  "guard1 p m \<longleftrightarrow> queryCnt m > 0 \<and> missRateBelow p (missCnt m) (queryCnt m)"

definition guard2 :: "policy \<Rightarrow> LFUMap \<Rightarrow> bool" where
  "guard2 p m \<longleftrightarrow> itemsMemUsageBelow p (kvHolder m)"

definition guard3 :: "policy \<Rightarrow> LFUMap \<Rightarrow> bool" where
  "guard3 p m \<longleftrightarrow> dropCount p (items (kvHolder m)) = 0"

subsection \<open>RePut and rehash\<close>

text \<open>
  Modelled from the spec: \<open>newKVHolder(cap)\<close> allocates a buffer of \<open>cap\<close> bytes with no
  items. The first record starts at offset 4, so that no descriptor is 0 (\<open>ItemsUsedMem\<close>
  of the source counts these 4 bytes); the spec names no other bound for the tail than
  \<open>cap\<close>, which the model takes for the field \<open>limit\<close> of the arena.
\<close>

definition newKVHolder :: "uint32 \<Rightarrow> kvHolder" where
  "newKVHolder n = \<lparr>data = replicate (unat n) 0, tail = 4, cap = n, kvlimit = n,
                     items = 0, valUsed = 0\<rparr>"

text \<open>
  Modelled from the spec: \<open>kvHolder.getValue(off, size)\<close> copies \<open>size\<close> bytes at \<open>off\<close> out of
  the arena.
\<close>

definition getValue :: "kvHolder \<Rightarrow> uint32 \<Rightarrow> uint32 \<Rightarrow> byte list option" where
  "getValue kv off n = slice (data kv) (unat off) (unat off + unat n)"

text \<open>
  Modelled from the spec: \<open>kvHolder.getKVUnlock\<close> returns the key and the value of a
  descriptor, the value decoded by its layout: type 0 has its size in Word B; type 1 has
  the size \<open>small + big << 8\<close>, and when that is the sentinel \<open>overLongSize\<close> the size is
  the 4-byte prefix at the value offset and the value follows the prefix.
\<close>

definition getKVUnlock :: "vconsts \<Rightarrow> kvHolder \<Rightarrow> kIdx \<Rightarrow> (byte list \<times> byte list) option" where
  "getKVUnlock c kv idx = do {
     k \<leftarrow> getKey kv idx;
     vHeader \<leftarrow> LoadUint32_at (data kv) (unat (offset idx * 4 + 16));
     let vOffset = (vHeader AND IdxOffsetMask) * 4;
     let vSmall = drop_bit 24 (vHeader AND IdxSmallSizeMask);
     if valType idx = 0 then do {
       v \<leftarrow> getValue kv vOffset vSmall;
       Some (k, v)
     } else do {
       let vSize = vSmall + push_bit 8 (capOrBigSize idx);
       if vSize = overLongSize c then do {
         n \<leftarrow> LoadUint32_at (data kv) (unat vOffset);
         v \<leftarrow> getValue kv (vOffset + 4) n;
         Some (k, v)
       } else do {
         v \<leftarrow> getValue kv vOffset vSize;
         Some (k, v)
       }
     }
   }"

text \<open>
  The insertion of \<open>RePut\<close> at the tail of the arena (the three branches after
  \<open>matches = metaMatchEmpty(&m.ctrl[g])\<close>, without the table updates): the key, Word B and
  the value are written at \<open>tail\<close> and the descriptor is returned; \<open>None\<close> of the inner
  option is the exit \<open>ntail > cap\<close>.
\<close>

definition append_record ::
  "vconsts \<Rightarrow> kvHolder \<Rightarrow> byte list \<Rightarrow> byte list \<Rightarrow> (kIdx \<times> kvHolder) option option" where
  "append_record c kv key val =
     (let lv = (of_nat (length val) :: uint32) in
      if lv \<ge> overLongSize c then
        let vCap = Cap4Size lv + 4;
            ntail = tail kv + 20 + vCap
        in if ntail > cap kv then Some None
           else do {
             let kEnd = tail kv + 16;
             d1 \<leftarrow> copy_at (data kv) (unat (tail kv)) key;
             let vOffset = kEnd + 4;
             d2 \<leftarrow> StoreUint32_at d1 (unat vOffset) lv;
             d3 \<leftarrow> copy_at d2 (unat (vOffset + 4)) val;
             let idx = tail kv div storeUintBytes + overLongStoreHeaderH c + mapTypeHeader;
             d4 \<leftarrow> StoreUint32_at d3 (unat kEnd) (vOffset div storeUintBytes + overLongStoreHeaderL c);
             Some (Some (idx, kv\<lparr>data := d4, items := items kv + 1,
                                  valUsed := valUsed kv + vCap, tail := ntail\<rparr>))
           }
      else if lv \<ge> overShortSize c then
        let vCap = Cap4Size lv;
            ntail = tail kv + 20 + vCap
        in if ntail > cap kv then Some None
           else do {
             let vBig = drop_bit 8 lv;
             let vSmall = lv AND 0xff;
             let kEnd = tail kv + 16;
             d1 \<leftarrow> copy_at (data kv) (unat (tail kv)) key;
             let vOffset = kEnd + 4;
             d2 \<leftarrow> copy_at d1 (unat vOffset) val;
             let idx = tail kv div 4 + push_bit 24 vBig + mapTypeHeader;
             d3 \<leftarrow> StoreUint32_at d2 (unat kEnd) (vOffset div 4 + push_bit 24 vSmall);
             Some (Some (idx, kv\<lparr>data := d3, items := items kv + 1,
                                  valUsed := valUsed kv + vCap, tail := ntail\<rparr>))
           }
      else
        let vCap = Cap4Size lv;
            ntail = tail kv + 20 + vCap
        in if ntail > cap kv then Some None
           else do {
             let vSmall = lv;
             let kEnd = tail kv + 16;
             d1 \<leftarrow> copy_at (data kv) (unat (tail kv)) key;
             let vOffset = kEnd + 4;
             d2 \<leftarrow> copy_at d1 (unat vOffset) val;
             let idx = tail kv div 4 + push_bit 24 (vCap div 4);
             d3 \<leftarrow> StoreUint32_at d2 (unat kEnd) (vOffset div 4 + push_bit 24 vSmall);
             Some (Some (idx, kv\<lparr>data := d3, items := items kv + 1,
                                  valUsed := valUsed kv + vCap, tail := ntail\<rparr>))
           })"

text \<open>
  Modelled from the spec: \<open>kvHolder.gcSet(k, v)\<close> appends the key and the value to the
  arena and returns the descriptor. The model appends as the insertion of \<open>RePut\<close> does.
  The spec does not say what \<open>gcSet\<close> does with a record that does not fit; the model
  treats that as a panic.
\<close>

definition gcSet :: "vconsts \<Rightarrow> kvHolder \<Rightarrow> byte list \<Rightarrow> byte list \<Rightarrow> (kIdx \<times> kvHolder) option" where
  "gcSet c kv k v = (case append_record c kv k v of Some (Some r) \<Rightarrow> Some r | _ \<Rightarrow> None)"

text \<open>
  \<open>nextSize\<close>. For fewer than \<open>2^32\<close> groups the 64-bit floating point product
  \<open>float64(len(m.groups)) * 1.2\<close> rounds to a number whose ceiling is the ceiling of the
  exact \<open>6 * G / 5\<close>, which the model computes on natural numbers.
\<close>

definition nextSize :: "LFUMap \<Rightarrow> uint32" where
  "nextSize m =
     (if dead m \<ge> resident m div 2 then of_nat (length (groups m))
      else of_nat ((6 * length (groups m) + 4) div 5))"

text \<open>\<open>newEmptyMetadata\<close>: 16 control bytes \<open>empty\<close>.\<close>

definition newEmptyMetadata :: metadata where
  "newEmptyMetadata = replicate 16 empty_meta"

text \<open>
  The loop \<open>for { matches := metaMatchEmpty(&ctrl[gN]); if matches != 0 { ... break };
  gN++; ... }\<close> of \<open>rehash\<close> and \<open>GCCopy\<close>: it ends at the first group with an empty slot
  (\<open>Miss\<close>), and never when there is none.
\<close>

partial_function (option) find_empty :: "metadata list \<Rightarrow> nat \<Rightarrow> nat \<Rightarrow> probe_result option" where
  "find_empty ct n gN =
     (if gN \<ge> length ct then Some ProbePanic
      else if metaMatchEmpty (ct ! gN) \<noteq> 0 then Some (Miss gN)
      else find_empty ct n (next_group n gN))"

declare find_empty.simps [code]

text \<open>
  The body of the two nested \<open>range\<close> loops of \<open>rehash\<close> and \<open>GCCopy\<close> for the old slot
  \<open>(g, s)\<close>: \<open>old\<close> is the shard, \<open>new\<close> carries the tables and the arena that are being
  built. \<open>md5hl k\<close> is the second result of \<open>md5hash.MD5HL(k)\<close>, a parameter.
\<close>

definition reinsert ::
  "vconsts \<Rightarrow> (byte list \<Rightarrow> uint64) \<Rightarrow> LFUMap \<Rightarrow> LFUMap \<Rightarrow> nat \<times> nat \<Rightarrow> LFUMap outcome" where
  "reinsert c md5hl old new gs =
     (let (g, s) = gs in
      if ctrl old ! g ! s = empty_meta \<or> ctrl old ! g ! s = tombstone then Return new
      else if \<not> (g < length (groups old) \<and> s < length (groups old ! g)) then Panic
      else case getKVUnlock c (kvHolder old) (groups old ! g ! s) of
        None \<Rightarrow> Panic
      | Some (k, v) \<Rightarrow>
          let (hi, lo) = splitHash (md5hl k);
              gN = probeStart hi (length (groups new))
          in case find_empty (ctrl new) (length (groups new)) gN of
               None \<Rightarrow> NoReturn
             | Some (Miss gN') \<Rightarrow>
                 let sN = fst (nextMatch (metaMatchEmpty (ctrl new ! gN'))) in
                 if \<not> (gN' < length (groups new) \<and> gN' < length (counters new) \<and>
                        g < length (counters old) \<and> s < length (counters old ! g)) then Panic
                 else (case gcSet c (kvHolder new) k v of
                    None \<Rightarrow> Panic
                  | Some (idx, kv1) \<Rightarrow>
                      Return (new\<lparr>groups := set2 (groups new) gN' sN idx,
                                   kvHolder := kv1,
                                   ctrl := set2 (ctrl new) gN' sN lo,
                                   counters := set2 (counters new) gN' sN (counters old ! g ! s),
                                   resident := resident new + 1\<rparr>))
             | Some _ \<Rightarrow> Panic)"

fun reinsert_all ::
  "vconsts \<Rightarrow> (byte list \<Rightarrow> uint64) \<Rightarrow> LFUMap \<Rightarrow> LFUMap \<Rightarrow> (nat \<times> nat) list \<Rightarrow> LFUMap outcome" where
  "reinsert_all c md5hl old new [] = Return new"
| "reinsert_all c md5hl old new (gs # rest) =
     (case reinsert c md5hl old new gs of
        Return new1 \<Rightarrow> reinsert_all c md5hl old new1 rest
      | Panic \<Rightarrow> Panic
      | NoReturn \<Rightarrow> NoReturn)"

text \<open>The slots in the order of \<open>for g := range m.ctrl { for s := range m.ctrl[g] { ... } }\<close>.\<close>

definition all_slots :: "LFUMap \<Rightarrow> (nat \<times> nat) list" where
  "all_slots m = concat (map (\<lambda>g. map (\<lambda>s. (g, s)) [0..<length (ctrl m ! g)]) [0..<length (ctrl m)])"

text \<open>The fresh tables of \<open>n\<close> groups with their fresh arena.\<close>

definition fresh_tables :: "LFUMap \<Rightarrow> nat \<Rightarrow> LFUMap" where
  "fresh_tables m n =
     m\<lparr>groups := replicate n (replicate 16 0),
       ctrl := replicate n newEmptyMetadata,
       counters := replicate n (replicate 16 0),
       kvHolder := newKVHolder (cap (kvHolder m)),
       resident := 0\<rparr>"

definition rehash :: "vconsts \<Rightarrow> (byte list \<Rightarrow> uint64) \<Rightarrow> LFUMap \<Rightarrow> LFUMap outcome" where
  "rehash c md5hl m =
     (let n = nextSize m in
      case reinsert_all c md5hl m (fresh_tables m (unat n)) (all_slots m) of
        Return new \<Rightarrow>
          Return (m\<lparr>groups := groups new, ctrl := ctrl new, counters := counters new,
                     kvHolder := kvHolder new, limit := n * maxAvgGroupLoad,
                     resident := resident new, dead := 0\<rparr>)
      | Panic \<Rightarrow> Panic
      | NoReturn \<Rightarrow> NoReturn)"

text \<open>What \<open>RePut\<close> does at the slot \<open>(g, s)\<close> whose key matched.\<close>

definition RePut_found :: "vconsts \<Rightarrow> LFUMap \<Rightarrow> nat \<Rightarrow> nat \<Rightarrow> byte list \<Rightarrow> (bool \<times> LFUMap) option" where
  "RePut_found c m g s val = do {
     let idx = groups m ! g ! s;
     let kOffset = offset idx * 4;
     let kEnd = kOffset + 16;
     vHeader \<leftarrow> LoadUint32_at (data (kvHolder m)) (unat kEnd);
     let vType = valType idx;
     let lv = (of_nat (length val) :: uint32);
     if lv \<ge> overLongSize c then do {
       let vCap = Cap4Size lv + 4;
       kv1 \<leftarrow> release_old c (kvHolder m) idx vHeader;
       let vOffset = tail kv1 + 4;
       let ntail = vOffset + vCap;
       if ntail > cap kv1 then do {
         m1 \<leftarrow> tombstone_slot (m\<lparr>kvHolder := kv1\<rparr>) g s;
         Some (False, m1)
       } else do {
         d1 \<leftarrow> StoreUint32_at (data kv1) (unat (tail kv1)) lv;
         d2 \<leftarrow> copy_at d1 (unat vOffset) val;
         let gs1 = set2 (groups m) g s
                     (kOffset div storeUintBytes + overLongStoreHeaderH c + mapTypeHeader);
         d3 \<leftarrow> StoreUint32_at d2 (unat kEnd) (tail kv1 div storeUintBytes + overLongStoreHeaderL c);
         Some (True, m\<lparr>groups := gs1,
                        kvHolder := kv1\<lparr>data := d3, tail := ntail, valUsed := valUsed kv1 + vCap\<rparr>\<rparr>)
       }
     } else if lv \<ge> overShortSize c then do {
       let vCap = Cap4Size lv;
       let ntail = tail (kvHolder m) + vCap;
       kv1 \<leftarrow> release_old c (kvHolder m) idx vHeader;
       if ntail > cap kv1 then do {
         m1 \<leftarrow> tombstone_slot (m\<lparr>kvHolder := kv1\<rparr>) g s;
         Some (False, m1)
       } else do {
         let vBig = drop_bit 8 (lv AND 0x7f00);
         let vSmall = lv AND 0xff;
         d1 \<leftarrow> copy_at (data kv1) (unat (tail kv1)) val;
         let gs1 = set2 (groups m) g s (kOffset div 4 + push_bit 24 vBig + mapTypeHeader);
         d2 \<leftarrow> StoreUint32_at d1 (unat kEnd) (tail kv1 div 4 + push_bit 24 vSmall);
         Some (True, m\<lparr>groups := gs1,
                        kvHolder := kv1\<lparr>data := d2, tail := ntail, valUsed := valUsed kv1 + vCap\<rparr>\<rparr>)
       }
     } else if vType = 0 \<and> lv \<le> capOrBigSize idx * 4 \<and> lv < overShortSize c then do {
       let vOffset = vHeader AND IdxOffsetMask;
       d1 \<leftarrow> StoreUint32_at (data (kvHolder m)) (unat kEnd) (vOffset + push_bit 24 lv);
       d2 \<leftarrow> copy_at d1 (unat (vOffset * 4)) val;
       Some (True, m\<lparr>kvHolder := (kvHolder m)\<lparr>data := d2\<rparr>\<rparr>)
     } else do {
       let vCap = Cap4Size lv;
       let ntail = tail (kvHolder m) + vCap;
       kv1 \<leftarrow> release_old c (kvHolder m) idx vHeader;
       if ntail > cap kv1 then do {
         m1 \<leftarrow> tombstone_slot (m\<lparr>kvHolder := kv1\<rparr>) g s;
         Some (False, m1\<lparr>groups := set2 (groups m1) g s 0\<rparr>)
       } else do {
         d1 \<leftarrow> copy_at (data kv1) (unat (tail kv1)) val;
         let gs1 = set2 (groups m) g s (kOffset div 4 + push_bit 24 (vCap div 4));
         d2 \<leftarrow> StoreUint32_at d1 (unat kEnd) (tail kv1 div 4 + push_bit 24 lv);
         Some (True, m\<lparr>groups := gs1,
                        kvHolder := kv1\<lparr>data := d2, tail := ntail, valUsed := valUsed kv1 + vCap\<rparr>\<rparr>)
       }
     }
   }"

text \<open>
  What \<open>RePut\<close> does at the group \<open>g\<close> where the probe met an empty slot: the record is
  appended to the arena (\<open>append_record\<close>) and the first empty slot of the group takes
  the descriptor, the tag \<open>int8(lo)\<close> and the counter 1.
\<close>

definition RePut_insert ::
  "vconsts \<Rightarrow> LFUMap \<Rightarrow> 8 word \<Rightarrow> nat \<Rightarrow> byte list \<Rightarrow> byte list \<Rightarrow> (bool \<times> LFUMap) option" where
  "RePut_insert c m lo g key val =
     (let s = fst (nextMatch (metaMatchEmpty (ctrl m ! g))) in
      case append_record c (kvHolder m) key val of
        None \<Rightarrow> None
      | Some None \<Rightarrow> Some (False, m)
      | Some (Some (idx, kv1)) \<Rightarrow>
          if g < length (groups m) \<and> g < length (counters m)
          then Some (True, m\<lparr>groups := set2 (groups m) g s idx,
                               kvHolder := kv1,
                               ctrl := set2 (ctrl m) g s lo,
                               counters := set2 (counters m) g s 1,
                               resident := resident m + 1\<rparr>)
          else None)"

text \<open>
  \<open>RePut\<close>: the two early exits, the rehash when \<open>resident >= limit\<close>, then the probe in the
  (possibly rebuilt) tables.
\<close>

definition RePut ::
  "vconsts \<Rightarrow> (byte list \<Rightarrow> uint64) \<Rightarrow> LFUMap \<Rightarrow> uint64 \<Rightarrow> byte list \<Rightarrow> byte list
   \<Rightarrow> (bool \<times> LFUMap) outcome" where
  "RePut c md5hl m l key val =
     (if tail (kvHolder m) \<ge> kvlimit (kvHolder m) then Return (False, m)
      else if rehashing m then Return (False, m)
      else
        case (if resident m \<ge> limit m
              then (case rehash c md5hl (m\<lparr>rehashing := True\<rparr>) of
                      Return m1 \<Rightarrow> Return (m1\<lparr>rehashing := False\<rparr>)
                    | Panic \<Rightarrow> Panic
                    | NoReturn \<Rightarrow> NoReturn)
              else Return m) of
          Panic \<Rightarrow> Panic
        | NoReturn \<Rightarrow> NoReturn
        | Return m1 \<Rightarrow>
            (case find_slot m1 l key of
               None \<Rightarrow> NoReturn
             | Some ProbePanic \<Rightarrow> Panic
             | Some (Hit g s) \<Rightarrow>
                 (case RePut_found c m1 g s val of None \<Rightarrow> Panic | Some r \<Rightarrow> Return r)
             | Some (Miss g) \<Rightarrow>
                 (case RePut_insert c m1 (snd (splitHash l)) g key val of
                    None \<Rightarrow> Panic | Some r \<Rightarrow> Return r)))"

subsection \<open>Has and Get\<close>

text \<open>\<open>add\<close>: the saturating increment of the counter of a slot.\<close>

definition add :: "LFUMap \<Rightarrow> nat \<Rightarrow> nat \<Rightarrow> LFUMap option" where
  "add m g s =
     (if g < length (counters m) then
        Some (if counters m ! g ! s < maxCount
              then m\<lparr>counters := set2 (counters m) g s (counters m ! g ! s + 1)\<rparr>
              else m)
      else None)"

definition Has :: "LFUMap \<Rightarrow> uint64 \<Rightarrow> byte list \<Rightarrow> (bool \<times> LFUMap) outcome" where
  "Has m l key =
     (let m0 = m\<lparr>queryCnt := queryCnt m + 1\<rparr> in
      case find_slot m0 l key of
        None \<Rightarrow> NoReturn
      | Some ProbePanic \<Rightarrow> Panic
      | Some (Miss g) \<Rightarrow> Return (False, m0\<lparr>missCnt := missCnt m0 + 1\<rparr>)
      | Some (Hit g s) \<Rightarrow> (case add m0 g s of None \<Rightarrow> Panic | Some m1 \<Rightarrow> Return (True, m1)))"

text \<open>
  The key test of \<open>Get\<close>: a descriptor 0 is skipped, otherwise the 16 bytes at the key
  offset are compared.
\<close>

definition Get_key_equal :: "kvHolder \<Rightarrow> byte list \<Rightarrow> kIdx \<Rightarrow> bool option" where
  "Get_key_equal kv key i =
     (if i = 0 then Some False
      else map_option (\<lambda>k. key = k)
             (slice (data kv) (unat (offset i * 4)) (unat (offset i * 4 + 16))))"

text \<open>The value that \<open>Get\<close> copies out at the slot \<open>(g, s)\<close> whose key matched.\<close>

definition Get_value :: "vconsts \<Rightarrow> LFUMap \<Rightarrow> nat \<Rightarrow> nat \<Rightarrow> byte list option" where
  "Get_value c m g s = do {
     let idx = groups m ! g ! s;
     let kv = kvHolder m;
     let kEnd = offset idx * 4 + 16;
     vHeader \<leftarrow> LoadUint32_at (data kv) (unat kEnd);
     let vType = valType idx;
     if vType = 0 then do {
       let vOffset = (vHeader AND IdxOffsetMask) * 4;
       let vSize = drop_bit 24 (vHeader AND IdxSmallSizeMask);
       slice (data kv) (unat vOffset) (unat (vOffset + vSize))
     } else do {
       let vOffset = (vHeader AND IdxOffsetMask) * 4;
       let vBig = capOrBigSize idx;
       let vSize = drop_bit 24 (vHeader AND IdxSmallSizeMask) + push_bit 8 vBig;
       if vSize = overLongSize c then do {
         vSize' \<leftarrow> LoadUint32_at (data kv) (unat vOffset);
         getValue kv (vOffset + 4) vSize'
       } else getValue kv vOffset vSize
     }
   }"

text \<open>
  \<open>Get\<close> returns the value and \<open>ok\<close> (the closer of the pooled buffer is not modelled); on a
  miss the value is \<open>nil\<close>.
\<close>

definition Get ::
  "vconsts \<Rightarrow> LFUMap \<Rightarrow> uint64 \<Rightarrow> byte list \<Rightarrow> ((byte list \<times> bool) \<times> LFUMap) outcome" where
  "Get c m l key =
     (let m0 = m\<lparr>queryCnt := queryCnt m + 1\<rparr>;
          (hi, lo) = splitHash l;
          g0 = probeStart hi (length (groups m0))
      in case probe (Get_key_equal (kvHolder m0) key) (ctrl m0) (groups m0) lo g0 of
        None \<Rightarrow> NoReturn
      | Some ProbePanic \<Rightarrow> Panic
      | Some (Miss g) \<Rightarrow> Return (([], False), m0\<lparr>missCnt := missCnt m0 + 1\<rparr>)
      | Some (Hit g s) \<Rightarrow>
          (case Get_value c m0 g s of
             None \<Rightarrow> Panic
           | Some v \<Rightarrow> (case add m0 g s of None \<Rightarrow> Panic | Some m1 \<Rightarrow> Return ((v, True), m1))))"

subsection \<open>PutMultiValue\<close>

text \<open>
  The loop \<open>for _, v := range vals { copy(data[off:], v); off += uint32(len(v)) }\<close>.
\<close>

fun copy_vals :: "byte list \<Rightarrow> uint32 \<Rightarrow> byte list list \<Rightarrow> byte list option" where
  "copy_vals d off [] = Some d"
| "copy_vals d off (v # vs) = do {
     d1 \<leftarrow> copy_at d (unat off) v;
     copy_vals d1 (off + of_nat (length v)) vs
   }"

definition PutMultiValue_found ::
  "vconsts \<Rightarrow> LFUMap \<Rightarrow> nat \<Rightarrow> nat \<Rightarrow> uint32 \<Rightarrow> byte list list \<Rightarrow> (bool \<times> LFUMap) option" where
  "PutMultiValue_found c m g s vlen vals = do {
     let idx = groups m ! g ! s;
     let kOffset = offset idx * 4;
     let kEnd = kOffset + 16;
     vHeader \<leftarrow> LoadUint32_at (data (kvHolder m)) (unat kEnd);
     let vType = valType idx;
     if vlen \<ge> limitSize c then do {
       m1 \<leftarrow> tombstone_slot m g s;
       kv1 \<leftarrow> release_old c (kvHolder m1) idx vHeader;
       Some (False, m1\<lparr>kvHolder := kv1\<rparr>)
     } else if vlen \<ge> overLongSize c then do {
       let vCap = Cap4Size vlen + 4;
       let ntail = tail (kvHolder m) + 20 + vCap;
       kv1 \<leftarrow> release_old c (kvHolder m) idx vHeader;
       if ntail > cap kv1 then do {
         m1 \<leftarrow> tombstone_slot (m\<lparr>kvHolder := kv1\<rparr>) g s;
         Some (False, m1)
       } else do {
         let vOffset = tail kv1;
         d1 \<leftarrow> StoreUint32_at (data kv1) (unat vOffset) vlen;
         d2 \<leftarrow> copy_vals d1 (tail kv1 + 4) vals;
         let gs1 = set2 (groups m) g s
                     (kOffset div storeUintBytes + overLongStoreHeaderH c + mapTypeHeader);
         d3 \<leftarrow> StoreUint32_at d2 (unat kEnd) (vOffset div storeUintBytes + overLongStoreHeaderL c);
         Some (True, m\<lparr>groups := gs1,
                        kvHolder := kv1\<lparr>data := d3, tail := ntail, valUsed := valUsed kv1 + vCap\<rparr>\<rparr>)
       }
     } else if vlen \<ge> overShortSize c then do {
       let vCap = Cap4Size vlen;
       let ntail = tail (kvHolder m) + vCap;
       kv1 \<leftarrow> release_old c (kvHolder m) idx vHeader;
       if ntail > cap kv1 then do {
         m1 \<leftarrow> tombstone_slot (m\<lparr>kvHolder := kv1\<rparr>) g s;
         Some (False, m1)
       } else do {
         let vBig = drop_bit 8 (vlen AND 0x7f00);
         let vSmall = vlen AND 0xff;
         let vOffset = tail kv1;
         d1 \<leftarrow> copy_vals (data kv1) (tail kv1) vals;
         let gs1 = set2 (groups m) g s (kOffset div 4 + push_bit 24 vBig + mapTypeHeader);
         d2 \<leftarrow> StoreUint32_at d1 (unat kEnd) (vOffset div 4 + push_bit 24 vSmall);
         Some (True, m\<lparr>groups := gs1,
                        kvHolder := kv1\<lparr>data := d2, tail := ntail, valUsed := valUsed kv1 + vCap\<rparr>\<rparr>)
       }
     } else if vType = 0 \<and> vlen \<le> capOrBigSize idx * 4 \<and> vlen < overShortSize c then do {
       let vOffset = vHeader AND IdxOffsetMask;
       d1 \<leftarrow> StoreUint32_at (data (kvHolder m)) (unat kEnd) (vOffset + push_bit 24 vlen);
       d2 \<leftarrow> copy_vals d1 (vOffset * 4) vals;
       Some (True, m\<lparr>kvHolder := (kvHolder m)\<lparr>data := d2\<rparr>\<rparr>)
     } else do {
       let vCap = Cap4Size vlen;
       let ntail = tail (kvHolder m) + vCap;
       kv1 \<leftarrow> release_old c (kvHolder m) idx vHeader;
       if ntail > cap kv1 then do {
         m1 \<leftarrow> tombstone_slot (m\<lparr>kvHolder := kv1\<rparr>) g s;
         Some (False, m1\<lparr>groups := set2 (groups m1) g s 0\<rparr>)
       } else do {
         let vOffset = tail kv1;
         d1 \<leftarrow> copy_vals (data kv1) (tail kv1) vals;
         let gs1 = set2 (groups m) g s (kOffset div 4 + push_bit 24 (vCap div 4));
         d2 \<leftarrow> StoreUint32_at d1 (unat kEnd) (vOffset div 4 + push_bit 24 vlen);
         Some (True, m\<lparr>groups := gs1,
                        kvHolder := kv1\<lparr>data := d2, tail := ntail, valUsed := valUsed kv1 + vCap\<rparr>\<rparr>)
       }
     }
   }"

definition PutMultiValue ::
  "vconsts \<Rightarrow> LFUMap \<Rightarrow> uint64 \<Rightarrow> byte list \<Rightarrow> uint32 \<Rightarrow> byte list list \<Rightarrow> (bool \<times> LFUMap) outcome" where
  "PutMultiValue c m l key vlen vals =
     (case find_slot m l key of
        None \<Rightarrow> NoReturn
      | Some ProbePanic \<Rightarrow> Panic
      | Some (Miss g) \<Rightarrow> Return (False, m)
      | Some (Hit g s) \<Rightarrow>
          (case PutMultiValue_found c m g s vlen vals of None \<Rightarrow> Panic | Some r \<Rightarrow> Return r))"

subsection \<open>GCCopy, Clear and the new shard\<close>

text \<open>
  \<open>garbageUsageBelow kv\<close> is the floating point comparison
  \<open>m.garbageUsage() < garbageRate\<close>, a parameter as the guards of \<open>Eliminate\<close> are.
  The loops of \<open>GCCopy\<close> are those of \<open>rehash\<close> with as many groups as before; \<open>GCCopy\<close>
  does not count the re-inserted slots and sets \<open>resident\<close> to \<open>resident - dead\<close>.
  It returns \<open>deadCount\<close>, \<open>gcMem\<close> and the skip reason.
\<close>

definition GCCopy ::
  "(kvHolder \<Rightarrow> bool) \<Rightarrow> vconsts \<Rightarrow> (byte list \<Rightarrow> uint64) \<Rightarrow> LFUMap
   \<Rightarrow> ((int \<times> int \<times> skipReason) \<times> LFUMap) outcome" where
  "GCCopy garbageUsageBelow c md5hl m =
     (if garbageUsageBelow (kvHolder m) then Return ((0, 0, skipReason1), m)
      else if rehashing m then Return ((0, 0, skipReason2), m)
      else
        let oldUsed = tail (kvHolder m);
            deadCount = uint (dead m);
            n = length (groups m)
        in case reinsert_all c md5hl m (fresh_tables m n) (all_slots m) of
             Return new \<Rightarrow>
               Return ((deadCount, uint (oldUsed - tail (kvHolder new)), noSkip),
                       m\<lparr>groups := groups new, ctrl := ctrl new, counters := counters new,
                         kvHolder := kvHolder new,
                         resident := resident m - dead m, dead := 0, rehashing := False\<rparr>)
           | Panic \<Rightarrow> Panic
           | NoReturn \<Rightarrow> NoReturn)"

definition Clear :: "LFUMap \<Rightarrow> LFUMap" where
  "Clear m =
     m\<lparr>ctrl := map (map (\<lambda>_. empty_meta)) (ctrl m),
       counters := map (map (\<lambda>_. 0)) (counters m),
       groups := map (map (\<lambda>_. 0)) (groups m),
       resident := 0, dead := 0,
       kvHolder := newKVHolder (cap (kvHolder m))\<rparr>"

text \<open>
  Modelled from the spec: \<open>numGroups\<close> gives \<open>G = ceil(capacity_hint / 14)\<close>, at least 1.
\<close>

definition numGroups :: "uint32 \<Rightarrow> uint32" where
  "numGroups n = (let g = (n + maxAvgGroupLoad - 1) div maxAvgGroupLoad in if g = 0 then 1 else g)"

text \<open>
  \<open>newInnerLFUMap\<close>; \<open>memMax\<close> is the arena capacity that the constructor computes from the
  configuration of the owner.
\<close>

definition newInnerLFUMap :: "uint32 \<Rightarrow> uint32 \<Rightarrow> LFUMap" where
  "newInnerLFUMap sz memMax =
     (let G = numGroups sz in
      \<lparr>kvHolder = newKVHolder memMax,
       ctrl = replicate (unat G) newEmptyMetadata,
       counters = replicate (unat G) (replicate 16 0),
       groups = replicate (unat G) (replicate 16 0),
       resident = 0, dead = 0, limit = G * maxAvgGroupLoad,
       queryCnt = 0, missCnt = 0, rehashing = False\<rparr>)"

subsection \<open>Sequences of operations\<close>

datatype op =
    OpRePut uint64 "byte list" "byte list"
  | OpPut uint64 "byte list" "byte list"
  | OpPutMultiValue uint64 "byte list" uint32 "byte list list"
  | OpDelete uint64 "byte list"
  | OpEliminate
  | OpRehash
  | OpGCCopy
  | OpClear
  | OpHas uint64 "byte list"
  | OpGet uint64 "byte list"

text \<open>The shard that an operation leaves, whatever it returns beside.\<close>

definition after :: "('a \<times> LFUMap) outcome \<Rightarrow> LFUMap outcome" where
  "after r = (case r of Return (x, m) \<Rightarrow> Return m | Panic \<Rightarrow> Panic | NoReturn \<Rightarrow> NoReturn)"

fun apply_op ::
  "vconsts \<Rightarrow> (byte list \<Rightarrow> uint64) \<Rightarrow> policy \<Rightarrow> (kvHolder \<Rightarrow> bool) \<Rightarrow> LFUMap \<Rightarrow> op \<Rightarrow> LFUMap outcome" where
  "apply_op c md5hl p gb m (OpRePut l key val) = after (RePut c md5hl m l key val)"
| "apply_op c md5hl p gb m (OpPut l key val) = after (Put c m l key val)"
| "apply_op c md5hl p gb m (OpPutMultiValue l key vlen vals) = after (PutMultiValue c m l key vlen vals)"
| "apply_op c md5hl p gb m (OpDelete l key) = after (Delete m l key)"
| "apply_op c md5hl p gb m OpEliminate = after (Eliminate p m)"
| "apply_op c md5hl p gb m OpRehash = rehash c md5hl m"
| "apply_op c md5hl p gb m OpGCCopy = after (GCCopy gb c md5hl m)"
| "apply_op c md5hl p gb m OpClear = Return (Clear m)"
| "apply_op c md5hl p gb m (OpHas l key) = after (Has m l key)"
| "apply_op c md5hl p gb m (OpGet l key) = after (Get c m l key)"

fun run ::
  "vconsts \<Rightarrow> (byte list \<Rightarrow> uint64) \<Rightarrow> policy \<Rightarrow> (kvHolder \<Rightarrow> bool) \<Rightarrow> LFUMap \<Rightarrow> op list \<Rightarrow> LFUMap outcome" where
  "run c md5hl p gb m [] = Return m"
| "run c md5hl p gb m (x # xs) =
     (case apply_op c md5hl p gb m x of
        Return m1 \<Rightarrow> run c md5hl p gb m1 xs
      | Panic \<Rightarrow> Panic
      | NoReturn \<Rightarrow> NoReturn)"

section \<open>Properties of the probe\<close>

lemma scan_Found_iff:
  "scan kmatch b = Found s \<longleftrightarrow>
     bit b s \<and> kmatch s = Some True \<and> (\<forall>i. i < s \<longrightarrow> bit b i \<longrightarrow> kmatch i = Some False)"
proof (induction kmatch b rule: scan.induct)
  case (1 kmatch b)
  show ?case
  proof (cases "b = 0")
    case True
    then show ?thesis by (subst scan.simps) simp
  next
    case False
    define t where "t = TrailingZeros16 b"
    define b' where "b' = snd (nextMatch b)"
    have nm: "nextMatch b = (t, b')" by (simp add: t_def b'_def nextMatch_def Let_def)
    have bt: "bit b t" using False by (simp add: t_def bit_TrailingZeros16)
    have lt: "\<And>i. i < t \<Longrightarrow> \<not> bit b i" by (simp add: t_def TrailingZeros16_least)
    have b': "\<And>i. bit b' i \<longleftrightarrow> bit b i \<and> i \<noteq> t"
      by (simp add: b'_def t_def bit_nextMatch)
    show ?thesis
    proof (cases "kmatch t")
      case None
      have "scan kmatch b = ScanPanic"
        using False nm None by (subst scan.simps) simp
      moreover have "\<not> (bit b s \<and> kmatch s = Some True \<and> (\<forall>i. i < s \<longrightarrow> bit b i \<longrightarrow> kmatch i = Some False))"
        using None bt lt by (metis linorder_neqE_nat option.distinct(1))
      ultimately show ?thesis by simp
    next
      case (Some v)
      show ?thesis
      proof (cases v)
        case True
        have "scan kmatch b = Found t"
          using False nm Some True by (subst scan.simps) simp
        moreover have "(bit b s \<and> kmatch s = Some True \<and> (\<forall>i. i < s \<longrightarrow> bit b i \<longrightarrow> kmatch i = Some False)) \<longleftrightarrow> s = t"
          using Some True bt lt by (metis (full_types) linorder_neqE_nat option.inject)
        ultimately show ?thesis by auto
      next
        case F: False
        have eq: "scan kmatch b = scan kmatch b'"
          using False nm Some F by (subst scan.simps) simp
        have IH: "scan kmatch b' = Found s \<longleftrightarrow>
           bit b' s \<and> kmatch s = Some True \<and> (\<forall>i. i < s \<longrightarrow> bit b' i \<longrightarrow> kmatch i = Some False)"
          using "1.IH" False nm Some F by simp
        show ?thesis unfolding eq IH b'
          using Some F by auto
      qed
    qed
  qed
qed

lemma scan_NotFound_iff:
  "scan kmatch b = NotFound \<longleftrightarrow> (\<forall>i. bit b i \<longrightarrow> kmatch i = Some False)"
proof (induction kmatch b rule: scan.induct)
  case (1 kmatch b)
  show ?case
  proof (cases "b = 0")
    case True
    then show ?thesis by (subst scan.simps) simp
  next
    case False
    define t where "t = TrailingZeros16 b"
    define b' where "b' = snd (nextMatch b)"
    have nm: "nextMatch b = (t, b')" by (simp add: t_def b'_def nextMatch_def Let_def)
    have bt: "bit b t" using False by (simp add: t_def bit_TrailingZeros16)
    have b': "\<And>i. bit b' i \<longleftrightarrow> bit b i \<and> i \<noteq> t"
      by (simp add: b'_def t_def bit_nextMatch)
    show ?thesis
    proof (cases "kmatch t")
      case None
      have "scan kmatch b = ScanPanic"
        using False nm None by (subst scan.simps) simp
      then show ?thesis using None bt by auto
    next
      case (Some v)
      show ?thesis
      proof (cases v)
        case True
        have "scan kmatch b = Found t"
          using False nm Some True by (subst scan.simps) simp
        then show ?thesis using Some True bt by auto
      next
        case F: False
        have eq: "scan kmatch b = scan kmatch b'"
          using False nm Some F by (subst scan.simps) simp
        have IH: "scan kmatch b' = NotFound \<longleftrightarrow> (\<forall>i. bit b' i \<longrightarrow> kmatch i = Some False)"
          using "1.IH" False nm Some F by simp
        show ?thesis unfolding eq IH b'
          using Some F by auto
      qed
    qed
  qed
qed

lemma bitset_nonzero_iff: "(w :: bitset) \<noteq> 0 \<longleftrightarrow> (\<exists>i. bit w i)"
proof
  assume "w \<noteq> 0"
  then show "\<exists>i. bit w i" by (metis bit_eq_iff bit_0_eq bot_apply bot_bool_def)
next
  assume "\<exists>i. bit w i"
  then show "w \<noteq> 0" by auto
qed

lemma metaMatchEmpty_nonzero:
  assumes "length md \<le> 16"
  shows "metaMatchEmpty md \<noteq> 0 \<longleftrightarrow> empty_meta \<in> set md"
proof -
  have "metaMatchEmpty md \<noteq> 0 \<longleftrightarrow> (\<exists>i. i < 16 \<and> i < length md \<and> md ! i = empty_meta)"
    unfolding bitset_nonzero_iff metaMatchEmpty_def bit_MatchMetadata ..
  also have "\<dots> \<longleftrightarrow> empty_meta \<in> set md"
  proof
    assume "\<exists>i. i < 16 \<and> i < length md \<and> md ! i = empty_meta"
    then show "empty_meta \<in> set md" by (metis nth_mem)
  next
    assume "empty_meta \<in> set md"
    then obtain i where "i < length md" "md ! i = empty_meta" by (metis in_set_conv_nth)
    moreover have "i < 16" using calculation(1) assms by simp
    ultimately show "\<exists>i. i < 16 \<and> i < length md \<and> md ! i = empty_meta" by blast
  qed
  finally show ?thesis .
qed

text \<open>A group that the probe passes: no slot matches the key and no slot is empty.\<close>

definition group_pass ::
  "(kIdx \<Rightarrow> bool option) \<Rightarrow> metadata list \<Rightarrow> group list \<Rightarrow> 8 word \<Rightarrow> nat \<Rightarrow> bool" where
  "group_pass kmatch ct gs lo g \<longleftrightarrow>
     g < length ct \<and>
     scan (\<lambda>s. if g < length gs then kmatch (gs ! g ! s) else None) (metaMatchH2 (ct ! g) lo) = NotFound \<and>
     metaMatchEmpty (ct ! g) = 0"

lemma probe_pass:
  "group_pass kmatch ct gs lo g \<Longrightarrow>
   probe kmatch ct gs lo g = probe kmatch ct gs lo (next_group (length gs) g)"
  by (subst probe.simps) (simp add: group_pass_def)

lemma probe_skip:
  assumes "\<And>j. j < n \<Longrightarrow> group_pass kmatch ct gs lo (((next_group (length gs)) ^^ j) g)"
  shows "probe kmatch ct gs lo g = probe kmatch ct gs lo (((next_group (length gs)) ^^ n) g)"
  using assms
proof (induction n arbitrary: g)
  case 0
  then show ?case by simp
next
  case (Suc n)
  have "group_pass kmatch ct gs lo g"
    using Suc.prems [of 0] by simp
  then have step: "probe kmatch ct gs lo g = probe kmatch ct gs lo (next_group (length gs) g)"
    by (rule probe_pass)
  have "probe kmatch ct gs lo (next_group (length gs) g) =
        probe kmatch ct gs lo (((next_group (length gs)) ^^ n) (next_group (length gs) g))"
  proof (rule Suc.IH)
    fix j assume "j < n"
    then show "group_pass kmatch ct gs lo (((next_group (length gs)) ^^ j) (next_group (length gs) g))"
      using Suc.prems [of "Suc j"] by (simp add: funpow_swap1)
  qed
  with step show ?case by (simp add: funpow_swap1)
qed

lemma next_group_funpow:
  assumes "g < n"
  shows "((next_group n) ^^ j) g = (g + j) mod n"
proof (induction j)
  case 0
  then show ?case using assms by simp
next
  case (Suc j)
  have lt: "(g + j) mod n < n" using assms by simp
  have "((next_group n) ^^ Suc j) g = next_group n ((g + j) mod n)"
    using Suc by simp
  also have "\<dots> = (if Suc ((g + j) mod n) = n then 0 else Suc ((g + j) mod n))"
    using lt by (auto simp: next_group_def)
  also have "\<dots> = (g + Suc j) mod n"
    by (simp add: mod_Suc)
  finally show ?case .
qed


subsection \<open>Shape of the tables; where a probe ends\<close>

text \<open>
  \<open>shape\<close>: the three tables have the same, non-zero number of groups and every row has 16
  slots (in Go the rows are fixed arrays and the tables are built together).
\<close>

definition shape :: "LFUMap \<Rightarrow> bool" where
  "shape m \<longleftrightarrow>
     0 < length (groups m) \<and>
     length (ctrl m) = length (groups m) \<and>
     length (counters m) = length (groups m) \<and>
     list_all (\<lambda>r. length r = 16) (ctrl m) \<and>
     list_all (\<lambda>r. length r = 16) (counters m) \<and>
     list_all (\<lambda>r. length r = 16) (groups m)"

text \<open>Slot \<open>s\<close> of group \<open>g\<close> does not hold \<open>key\<close> under the tag \<open>lo\<close> (and its key can be read).\<close>

definition slot_differs :: "LFUMap \<Rightarrow> byte list \<Rightarrow> 8 word \<Rightarrow> nat \<Rightarrow> nat \<Rightarrow> bool" where
  "slot_differs m key lo g s \<longleftrightarrow>
     (ctrl m ! g ! s = lo \<longrightarrow>
        (case getKey (kvHolder m) (groups m ! g ! s) of None \<Rightarrow> False | Some k \<Rightarrow> k \<noteq> key))"

definition no_key_match :: "LFUMap \<Rightarrow> byte list \<Rightarrow> 8 word \<Rightarrow> nat \<Rightarrow> bool" where
  "no_key_match m key lo g \<longleftrightarrow> list_all (slot_differs m key lo g) [0..<16]"

definition has_empty :: "LFUMap \<Rightarrow> nat \<Rightarrow> bool" where
  "has_empty m g \<longleftrightarrow> empty_meta \<in> set (ctrl m ! g)"

text \<open>The \<open>n\<close>-th group on the probe path of hash \<open>l\<close> (counting from 0).\<close>

definition probe_group :: "LFUMap \<Rightarrow> uint64 \<Rightarrow> nat \<Rightarrow> nat" where
  "probe_group m l n =
     (probeStart (fst (splitHash l)) (length (groups m)) + n) mod length (groups m)"

text \<open>The first \<open>n\<close> groups on the path hold neither the key nor an empty slot.\<close>

definition passes :: "LFUMap \<Rightarrow> byte list \<Rightarrow> uint64 \<Rightarrow> nat \<Rightarrow> bool" where
  "passes m key l n \<longleftrightarrow>
     list_all (\<lambda>j. no_key_match m key (snd (splitHash l)) (probe_group m l j) \<and>
                   \<not> has_empty m (probe_group m l j)) [0..<n]"

text \<open>
  \<open>probe_misses\<close>: after \<open>n\<close> passed groups the probe is at a group with an empty slot and
  without the key. \<open>probe_hits\<close>: after \<open>n\<close> passed groups the probe is at a group whose
  lowest slot with the tag and the key is \<open>s\<close>.
\<close>

definition probe_misses :: "LFUMap \<Rightarrow> byte list \<Rightarrow> uint64 \<Rightarrow> nat \<Rightarrow> bool" where
  "probe_misses m key l n \<longleftrightarrow>
     passes m key l n \<and>
     no_key_match m key (snd (splitHash l)) (probe_group m l n) \<and>
     has_empty m (probe_group m l n)"

definition probe_hits :: "LFUMap \<Rightarrow> byte list \<Rightarrow> uint64 \<Rightarrow> nat \<Rightarrow> nat \<Rightarrow> bool" where
  "probe_hits m key l n s \<longleftrightarrow>
     passes m key l n \<and> s < 16 \<and>
     ctrl m ! probe_group m l n ! s = snd (splitHash l) \<and>
     getKey (kvHolder m) (groups m ! probe_group m l n ! s) = Some key \<and>
     list_all (slot_differs m key (snd (splitHash l)) (probe_group m l n)) [0..<s]"

text \<open>No occupied slot of the table holds \<open>key\<close>.\<close>

definition key_absent :: "LFUMap \<Rightarrow> byte list \<Rightarrow> bool" where
  "key_absent m key \<longleftrightarrow>
     list_all (\<lambda>g. list_all (\<lambda>s. ctrl m ! g ! s < 0x80 \<longrightarrow>
                 (case getKey (kvHolder m) (groups m ! g ! s) of
                    None \<Rightarrow> False | Some k \<Rightarrow> k \<noteq> key)) [0..<16]) [0..<length (ctrl m)]"

lemma shape_row:
  "shape m \<Longrightarrow> g < length (groups m) \<Longrightarrow>
   length (ctrl m ! g) = 16 \<and> length (counters m ! g) = 16 \<and> length (groups m ! g) = 16"
  by (simp add: shape_def list_all_length)

lemma probe_group_less: "shape m \<Longrightarrow> probe_group m l n < length (groups m)"
  by (simp add: probe_group_def shape_def)

lemma has_empty_iff:
  "shape m \<Longrightarrow> g < length (groups m) \<Longrightarrow> metaMatchEmpty (ctrl m ! g) \<noteq> 0 \<longleftrightarrow> has_empty m g"
  using metaMatchEmpty_nonzero [of "ctrl m ! g"] shape_row [of m g]
  by (simp add: has_empty_def)

lemma no_key_match_scan:
  assumes "no_key_match m key lo g" "g < length (groups m)"
  shows "scan (\<lambda>s. if g < length (groups m) then key_equal (kvHolder m) key (groups m ! g ! s) else None)
              (metaMatchH2 (ctrl m ! g) lo) = NotFound"
proof -
  have "key_equal (kvHolder m) key (groups m ! g ! s) = Some False"
    if "bit (metaMatchH2 (ctrl m ! g) lo) s" for s
  proof -
    from that have s: "s < 16" "ctrl m ! g ! s = lo"
      by (simp_all add: metaMatchH2_def bit_MatchMetadata)
    with assms(1) show ?thesis
      by (auto simp: no_key_match_def slot_differs_def list_all_length key_equal_def
               split: option.splits)
  qed
  with assms(2) show ?thesis by (simp add: scan_NotFound_iff)
qed

lemma passes_probe:
  assumes sh: "shape m" and pa: "passes m key l n"
  shows "find_slot m l key =
         probe (key_equal (kvHolder m) key) (ctrl m) (groups m) (snd (splitHash l)) (probe_group m l n)"
proof -
  define lo where "lo = snd (splitHash l)"
  define G where "G = length (groups m)"
  define g0 where "g0 = probeStart (fst (splitHash l)) G"
  have G: "0 < G" "length (ctrl m) = G" using sh by (simp_all add: shape_def G_def)
  have g0: "g0 < G" using G by (simp add: g0_def probeStart_def)
  have pg: "probe_group m l j = (g0 + j) mod G" for j
    by (simp add: probe_group_def g0_def G_def)
  have pass: "group_pass (key_equal (kvHolder m) key) (ctrl m) (groups m) lo
                (((next_group (length (groups m))) ^^ j) g0)"
    if "j < n" for j
  proof -
    let ?g = "probe_group m l j"
    have lt: "?g < length (groups m)" using sh by (rule probe_group_less)
    have p: "no_key_match m key lo ?g" "\<not> has_empty m ?g"
      using pa that by (simp_all add: passes_def list_all_length lo_def)
    have "metaMatchEmpty (ctrl m ! ?g) = 0"
      using p(2) has_empty_iff [OF sh lt] by simp
    moreover have "scan (\<lambda>s. if ?g < length (groups m)
                              then key_equal (kvHolder m) key (groups m ! ?g ! s) else None)
              (metaMatchH2 (ctrl m ! ?g) lo) = NotFound"
      using p(1) lt by (rule no_key_match_scan)
    ultimately have "group_pass (key_equal (kvHolder m) key) (ctrl m) (groups m) lo ?g"
      using lt G by (simp add: group_pass_def G_def)
    then show ?thesis
      using g0 by (simp add: next_group_funpow pg G_def)
  qed
  have "probe (key_equal (kvHolder m) key) (ctrl m) (groups m) lo g0 =
        probe (key_equal (kvHolder m) key) (ctrl m) (groups m) lo (probe_group m l n)"
    using probe_skip [of n "key_equal (kvHolder m) key" "ctrl m" "groups m" lo g0, OF pass] g0
    by (simp add: next_group_funpow pg G_def)
  then show ?thesis
    by (simp add: find_slot_def split_beta lo_def g0_def G_def)
qed

lemma probe_misses_Miss:
  assumes sh: "shape m" and pm: "probe_misses m key l n"
  shows "find_slot m l key = Some (Miss (probe_group m l n))"
proof -
  let ?g = "probe_group m l n" and ?lo = "snd (splitHash l)"
  have lt: "?g < length (groups m)" using sh by (rule probe_group_less)
  have "metaMatchEmpty (ctrl m ! ?g) \<noteq> 0"
    using pm has_empty_iff [OF sh lt] by (simp add: probe_misses_def)
  moreover have "scan (\<lambda>s. if ?g < length (groups m)
                            then key_equal (kvHolder m) key (groups m ! ?g ! s) else None)
              (metaMatchH2 (ctrl m ! ?g) ?lo) = NotFound"
    using pm lt by (intro no_key_match_scan) (simp_all add: probe_misses_def)
  moreover have "\<not> length (ctrl m) \<le> ?g" using lt sh by (simp add: shape_def not_le)
  ultimately have "probe (key_equal (kvHolder m) key) (ctrl m) (groups m) ?lo ?g = Some (Miss ?g)"
    by (subst probe.simps) simp
  moreover have "passes m key l n" using pm by (simp add: probe_misses_def)
  ultimately show ?thesis using passes_probe [OF sh] by simp
qed

lemma probe_hits_Hit:
  assumes sh: "shape m" and ph: "probe_hits m key l n s"
  shows "find_slot m l key = Some (Hit (probe_group m l n) s)"
proof -
  let ?g = "probe_group m l n" and ?lo = "snd (splitHash l)"
  let ?k = "\<lambda>s. if ?g < length (groups m)
                 then key_equal (kvHolder m) key (groups m ! ?g ! s) else None"
  have lt: "?g < length (groups m)" using sh by (rule probe_group_less)
  have s: "s < 16" "ctrl m ! ?g ! s = ?lo" "getKey (kvHolder m) (groups m ! ?g ! s) = Some key"
    and before: "\<And>i. i < s \<Longrightarrow> slot_differs m key ?lo ?g i"
    using ph by (simp_all add: probe_hits_def list_all_length)
  have "bit (metaMatchH2 (ctrl m ! ?g) ?lo) s"
    using s shape_row [OF sh lt] by (simp add: metaMatchH2_def bit_MatchMetadata)
  moreover have "?k s = Some True" using s lt by (simp add: key_equal_def)
  moreover have "?k i = Some False" if "i < s" "bit (metaMatchH2 (ctrl m ! ?g) ?lo) i" for i
  proof -
    from that(2) have "ctrl m ! ?g ! i = ?lo" by (simp add: metaMatchH2_def bit_MatchMetadata)
    with before [OF that(1)] lt show ?thesis
      by (auto simp: slot_differs_def key_equal_def split: option.splits)
  qed
  ultimately have "scan ?k (metaMatchH2 (ctrl m ! ?g) ?lo) = Found s"
    unfolding scan_Found_iff by blast
  moreover have "\<not> length (ctrl m) \<le> ?g" using lt sh by (simp add: shape_def not_le)
  ultimately have "probe (key_equal (kvHolder m) key) (ctrl m) (groups m) ?lo ?g = Some (Hit ?g s)"
    by (subst probe.simps) simp
  moreover have "passes m key l n" using ph by (simp add: probe_hits_def)
  ultimately show ?thesis using passes_probe [OF sh] by simp
qed

lemma splitHash_tag: "snd (splitHash l) < 0x80"
proof -
  have m7: "(0x7F :: 64 word) = mask 7" by (simp add: mask_eq_exp_minus_1)
  have "(ucast (l AND 0x7F) :: 8 word) = ucast l AND mask 7"
    unfolding m7 by (simp add: take_bit_eq_mask [symmetric] unsigned_take_bit_eq)
  then show ?thesis
    using and_mask_less' [of 7 "ucast l :: 8 word"] by (simp add: splitHash_def)
qed

lemma key_absent_no_key_match:
  "key_absent m key \<Longrightarrow> g < length (ctrl m) \<Longrightarrow> lo < 0x80 \<Longrightarrow> no_key_match m key lo g"
  by (simp add: key_absent_def no_key_match_def slot_differs_def list_all_length)

lemma cyclic_reach:
  assumes "g0 < G" "g < (G::nat)"
  shows "\<exists>n. (g0 + n) mod G = g"
proof
  show "(g0 + (g + G - g0)) mod G = g" using assms by simp
qed

lemma key_absent_probe_misses:
  assumes sh: "shape m" and ab: "key_absent m key"
    and em: "\<exists>g<length (groups m). has_empty m g"
  shows "\<exists>n. probe_misses m key l n"
proof -
  define lo where "lo = snd (splitHash l)"
  define G where "G = length (groups m)"
  define g0 where "g0 = probeStart (fst (splitHash l)) G"
  have G: "0 < G" "length (ctrl m) = G" using sh by (simp_all add: shape_def G_def)
  have g0: "g0 < G" using G by (simp add: g0_def probeStart_def)
  have lo: "lo < 0x80" by (simp add: lo_def splitHash_tag)
  have pg: "probe_group m l j = (g0 + j) mod G" for j
    by (simp add: probe_group_def g0_def G_def)
  have nkm: "no_key_match m key lo (probe_group m l j)" for j
    using ab lo G by (intro key_absent_no_key_match) (simp_all add: pg)
  from em obtain g where g: "g < G" "has_empty m g" by (auto simp: G_def)
  from cyclic_reach [OF g0 g(1)] obtain n0 where "(g0 + n0) mod G = g" ..
  with g(2) have ex: "has_empty m (probe_group m l n0)" by (simp add: pg)
  define n where "n = (LEAST n. has_empty m (probe_group m l n))"
  have last: "has_empty m (probe_group m l n)"
    unfolding n_def using ex by (rule LeastI)
  have before: "\<not> has_empty m (probe_group m l j)" if "j < n" for j
    using that unfolding n_def by (rule not_less_Least)
  have "probe_misses m key l n"
    using nkm last before
    by (simp add: probe_misses_def passes_def list_all_length lo_def)
  then show ?thesis ..
qed

subsection \<open>What a finished probe says about the table\<close>

lemma scan_Found_bit: "scan kmatch b = Found s \<Longrightarrow> bit b s \<and> kmatch s = Some True"
  by (simp add: scan_Found_iff)

definition probe_post ::
  "(kIdx \<Rightarrow> bool option) \<Rightarrow> metadata list \<Rightarrow> group list \<Rightarrow> 8 word \<Rightarrow> probe_result \<Rightarrow> bool" where
  "probe_post kmatch ct gs lo r \<longleftrightarrow>
     (case r of
        Hit g' s \<Rightarrow> g' < length ct \<and> g' < length gs \<and> s < length (ct ! g') \<and> s < 16 \<and>
                    ct ! g' ! s = lo \<and> kmatch (gs ! g' ! s) = Some True
      | Miss g' \<Rightarrow> g' < length ct \<and> metaMatchEmpty (ct ! g') \<noteq> 0
      | ProbePanic \<Rightarrow> True)"

lemma probe_sound:
  assumes "probe kmatch ct gs lo g = Some r"
  shows "probe_post kmatch ct gs lo r"
proof (rule probe.raw_induct [where P = "\<lambda>kmatch ct gs lo g r. probe_post kmatch ct gs lo r",
        OF _ assms], goal_cases)
  case (1 f kmatch ct gs lo g r)
  show ?case
  proof (cases "length ct \<le> g")
    case True
    with 1(2) show ?thesis by (auto simp: probe_post_def)
  next
    case False
    show ?thesis
    proof (cases "scan (\<lambda>s. if g < length gs then kmatch (gs ! g ! s) else None)
                       (metaMatchH2 (ct ! g) lo)")
      case (Found s)
      from scan_Found_bit [OF Found]
      have "bit (metaMatchH2 (ct ! g) lo) s" "g < length gs" "kmatch (gs ! g ! s) = Some True"
        by (auto split: if_splits)
      then show ?thesis
        using 1(2) False Found by (auto simp: metaMatchH2_def bit_MatchMetadata probe_post_def)
    next
      case NotFound
      show ?thesis
      proof (cases "metaMatchEmpty (ct ! g) \<noteq> 0")
        case True
        with 1(2) False NotFound show ?thesis by (auto simp: probe_post_def)
      next
        case F: False
        with 1(2) False NotFound
        have "f kmatch ct gs lo (next_group (length gs) g) = Some r" by simp
        then show ?thesis by (rule 1(1))
      qed
    next
      case ScanPanic
      with 1(2) False show ?thesis by (auto simp: probe_post_def)
    qed
  qed
qed

lemma find_slot_Hit:
  assumes "find_slot m l key = Some (Hit g s)"
  shows "g < length (ctrl m)" "g < length (groups m)" "s < length (ctrl m ! g)" "s < 16"
    "ctrl m ! g ! s = snd (splitHash l)"
  using probe_sound [of "key_equal (kvHolder m) key" "ctrl m" "groups m" "snd (splitHash l)"
      "probeStart (fst (splitHash l)) (length (groups m))" "Hit g s"] assms
  by (simp_all add: find_slot_def split_beta probe_post_def)

lemma find_slot_Miss:
  assumes "find_slot m l key = Some (Miss g)"
  shows "g < length (ctrl m)" "metaMatchEmpty (ctrl m ! g) \<noteq> 0"
  using probe_sound [of "key_equal (kvHolder m) key" "ctrl m" "groups m" "snd (splitHash l)"
      "probeStart (fst (splitHash l)) (length (groups m))" "Miss g"] assms
  by (simp_all add: find_slot_def split_beta probe_post_def)

lemma find_empty_sound:
  assumes "find_empty ct n g = Some r"
  shows "probe_post (\<lambda>_. None) ct [] 0 r \<and> (\<forall>g' s. r \<noteq> Hit g' s)"
proof (rule find_empty.raw_induct
        [where P = "\<lambda>ct n g r. probe_post (\<lambda>_. None) ct [] 0 r \<and> (\<forall>g' s. r \<noteq> Hit g' s)",
         OF _ assms], goal_cases)
  case (1 f ct n g r)
  show ?case
  proof (cases "length ct \<le> g")
    case True
    with 1(2) show ?thesis by (auto simp: probe_post_def)
  next
    case False
    show ?thesis
    proof (cases "metaMatchEmpty (ct ! g) \<noteq> 0")
      case True
      with 1(2) False show ?thesis by (auto simp: probe_post_def)
    next
      case F: False
      with 1(2) False have "f ct n (next_group n g) = Some r" by simp
      then show ?thesis by (rule 1(1))
    qed
  qed
qed

lemma find_empty_Miss:
  assumes "find_empty ct n g = Some (Miss g')"
  shows "g' < length ct" "metaMatchEmpty (ct ! g') \<noteq> 0"
  using find_empty_sound [OF assms] by (simp_all add: probe_post_def)

text \<open>The first empty slot of a group with an empty slot.\<close>

lemma first_empty_slot:
  assumes "metaMatchEmpty md \<noteq> 0"
  shows "fst (nextMatch (metaMatchEmpty md)) < length md"
    "md ! fst (nextMatch (metaMatchEmpty md)) = empty_meta"
  using bit_TrailingZeros16 [OF assms]
  by (simp_all add: fst_nextMatch metaMatchEmpty_def bit_MatchMetadata)

section \<open>Properties of the updates\<close>

lemma set2_same:
  "g < length xss \<Longrightarrow> s < length (xss ! g) \<Longrightarrow> set2 xss g s v ! g ! s = v"
  by (simp add: set2_def)

text \<open>
  The records of slot \<open>(g, s)\<close> lie inside the arena: Word B can be read and, when the
  old value has the long layout, so can its length prefix.
\<close>

definition slot_in_arena :: "vconsts \<Rightarrow> LFUMap \<Rightarrow> nat \<Rightarrow> nat \<Rightarrow> bool" where
  "slot_in_arena c m g s \<longleftrightarrow>
     (let idx = groups m ! g ! s in
      case LoadUint32_at (data (kvHolder m)) (unat (offset idx * 4 + 16)) of
        None \<Rightarrow> False
      | Some vHeader \<Rightarrow> release_old c (kvHolder m) idx vHeader \<noteq> None)"

text \<open>
  The tail that an appending update of \<open>Put\<close> asks for (\<open>ntail\<close>); \<open>None\<close> when the value is
  rejected for its length or written in place.
\<close>

definition Put_ntail :: "vconsts \<Rightarrow> LFUMap \<Rightarrow> nat \<Rightarrow> nat \<Rightarrow> byte list \<Rightarrow> uint32 option" where
  "Put_ntail c m g s val =
     (let idx = groups m ! g ! s;
          lv = (of_nat (length val) :: uint32);
          t = tail (kvHolder m)
      in if lv \<ge> limitSize c then None
         else if lv \<ge> overLongSize c then Some (t + 20 + (Cap4Size lv + 4))
         else if lv \<ge> overShortSize c then Some (t + Cap4Size lv)
         else if valType idx = 0 \<and> lv \<le> capOrBigSize idx * 4 \<and> lv < overShortSize c then None
         else Some (t + Cap4Size lv))"

definition Put_fails :: "vconsts \<Rightarrow> LFUMap \<Rightarrow> nat \<Rightarrow> nat \<Rightarrow> byte list \<Rightarrow> bool" where
  "Put_fails c m g s val \<longleftrightarrow>
     (of_nat (length val) :: uint32) \<ge> limitSize c \<or>
     (case Put_ntail c m g s val of None \<Rightarrow> False | Some nt \<Rightarrow> nt > cap (kvHolder m))"

lemma release_old_fields:
  "release_old c kv idx h = Some kv' \<Longrightarrow>
   data kv' = data kv \<and> tail kv' = tail kv \<and> cap kv' = cap kv \<and> items kv' = items kv \<and> kvlimit kv' = kvlimit kv"
  by (auto simp: release_old_def Let_def split: if_splits Option.bind_splits)

lemma Put_found_fails:
  assumes g: "g < length (ctrl m)" "g < length (counters m)" "g < length (groups m)"
    and row: "length (ctrl m ! g) = 16" "length (counters m ! g) = 16"  and s: "s < 16"
    and ok: "slot_in_arena c m g s" and f: "Put_fails c m g s val"
  shows "\<exists>m'. Put_found c m g s val = Some (False, m') \<and>
           ctrl m' ! g ! s = tombstone \<and> dead m' = dead m + 1 \<and>
           counters m' ! g ! s = 0 \<and> items (kvHolder m') = items (kvHolder m) - 1"
proof -
  define idx where "idx = groups m ! g ! s"
  obtain h where h: "LoadUint32_at (data (kvHolder m)) (unat (offset idx * 4 + 16)) = Some h"
    using ok by (auto simp: slot_in_arena_def idx_def Let_def split: option.splits)
  obtain kv1 where kv1: "release_old c (kvHolder m) idx h = Some kv1"
    using ok h by (auto simp: slot_in_arena_def idx_def Let_def)
  note kf = release_old_fields [OF kv1]
  have kv1': "release_old c ((kvHolder m)\<lparr>items := items (kvHolder m) - 1\<rparr>) idx h
               = Some (kv1\<lparr>items := items (kvHolder m) - 1\<rparr>)"
    using kv1 by (auto simp: release_old_def Let_def split: if_splits Option.bind_splits)
  show ?thesis
    using f g row s h kv1 kv1' kf
    by (auto simp: Put_found_def Put_fails_def Put_ntail_def Let_def idx_def [symmetric]
          tombstone_slot_def set2_same split: if_splits)
qed


lemma Put_found_not_fails:
  assumes "Put_found c m g s val = Some (ok, m')" and "\<not> Put_fails c m g s val"
  shows "ok"
proof -
  have rel: "cap kv' = cap kv \<and> tail kv' = tail kv" if "release_old c kv i h = Some kv'" for kv kv' i h
    using release_old_fields [OF that] by simp
  show ?thesis
    using assms
    by (auto simp: Put_found_def Put_fails_def Put_ntail_def Let_def not_le not_less
        split: if_splits Option.bind_splits dest!: rel)
qed

lemma length_copy_at: "copy_at d off src = Some d' \<Longrightarrow> length d' = length d"
  by (auto simp: copy_at_def split: if_splits)

lemma nth_copy_at_outside:
  "copy_at d off src = Some d' \<Longrightarrow> i < length d \<Longrightarrow> i < off \<or> off + length src \<le> i \<Longrightarrow>
   d' ! i = d ! i"
  by (auto simp: copy_at_def nth_append min_def split: if_splits)

lemma length_StoreUint32_at: "StoreUint32_at d off v = Some d' \<Longrightarrow> length d' = length d"
  by (auto simp: StoreUint32_at_def length_copy_at split: if_splits)

lemma nth_StoreUint32_at_outside:
  "StoreUint32_at d off v = Some d' \<Longrightarrow> i < length d \<Longrightarrow> i < off \<or> off + 4 \<le> i \<Longrightarrow>
   d' ! i = d ! i"
  using nth_copy_at_outside [of d off "uint32_bytes v" d' i]
  by (auto simp: StoreUint32_at_def uint32_bytes_def split: if_splits)

lemma StoreUint32_at_Some:
  "off + 4 \<le> length d \<Longrightarrow> \<exists>d'. StoreUint32_at d off v = Some d'"
  by (simp add: StoreUint32_at_def copy_at_def)

lemma copy_at_Some: "off \<le> length d \<Longrightarrow> \<exists>d'. copy_at d off src = Some d'"
  by (simp add: copy_at_def)

definition consts_ordered :: "vconsts \<Rightarrow> bool" where
  "consts_ordered c \<longleftrightarrow> overShortSize c \<le> overLongSize c \<and> overLongSize c \<le> limitSize c"

lemma Put_found_in_place:
  fixes m :: LFUMap
  defines "d \<equiv> data (kvHolder m)"
  assumes co: "consts_ordered c"
    and h: "LoadUint32_at d (unat (offset (groups m ! g ! s) * 4 + 16)) = Some vHeader"
    and vo: "unat ((vHeader AND IdxOffsetMask) * 4) \<le> length d"
    and t0: "valType (groups m ! g ! s) = 0"
    and short: "length val < unat (overShortSize c)"
    and fits: "length val \<le> unat (capOrBigSize (groups m ! g ! s) * 4)"
  shows "\<exists>d'. Put_found c m g s val = Some (True, m\<lparr>kvHolder := (kvHolder m)\<lparr>data := d'\<rparr>\<rparr>) \<and>
           length d' = length d \<and>
           (\<forall>i < length d.
                \<not> (unat (offset (groups m ! g ! s) * 4 + 16) \<le> i \<and>
                     i < unat (offset (groups m ! g ! s) * 4 + 16) + 4) \<and>
                \<not> (unat ((vHeader AND IdxOffsetMask) * 4) \<le> i \<and>
                     i < unat ((vHeader AND IdxOffsetMask) * 4) + length val)
                \<longrightarrow> d' ! i = d ! i)"
proof -
  define lv :: uint32 where "lv = of_nat (length val)"
  define kEnd where "kEnd = unat (offset (groups m ! g ! s) * 4 + 16)"
  define vo4 where "vo4 = unat ((vHeader AND IdxOffsetMask) * 4)"
  have lvn: "unat lv = length val"
    using short le_unat_uoi [of "length val" "overShortSize c"] by (simp add: lv_def)
  have lv1: "lv < overShortSize c" using short lvn by (simp add: word_less_nat_alt)
  have lv2: "lv \<le> capOrBigSize (groups m ! g ! s) * 4" using fits lvn by (simp add: word_le_nat_alt)
  have lv3: "\<not> overShortSize c \<le> lv" "\<not> overLongSize c \<le> lv" "\<not> limitSize c \<le> lv"
    using lv1 co by (auto simp: consts_ordered_def)
  have kEnd4: "kEnd + 4 \<le> length d"
    using h by (auto simp: LoadUint32_at_def kEnd_def split: if_splits)
  obtain d1 where d1: "StoreUint32_at d kEnd ((vHeader AND IdxOffsetMask) + push_bit 24 lv) = Some d1"
    using StoreUint32_at_Some [OF kEnd4] by blast
  have ld1: "length d1 = length d" using d1 by (rule length_StoreUint32_at)
  obtain d2 where d2: "copy_at d1 vo4 val = Some d2"
    using copy_at_Some [of vo4 d1 val] vo ld1 by (auto simp: vo4_def)
  have ld2: "length d2 = length d" using d2 ld1 by (simp add: length_copy_at)
  have frame: "d2 ! i = d ! i"
    if "i < length d" "\<not> (kEnd \<le> i \<and> i < kEnd + 4)" "\<not> (vo4 \<le> i \<and> i < vo4 + length val)" for i
  proof -
    have "d2 ! i = d1 ! i" using that ld1 by (intro nth_copy_at_outside [OF d2]) auto
    also have "d1 ! i = d ! i" using that by (intro nth_StoreUint32_at_outside [OF d1]) auto
    finally show ?thesis .
  qed
  have "Put_found c m g s val = Some (True, m\<lparr>kvHolder := (kvHolder m)\<lparr>data := d2\<rparr>\<rparr>)"
    using h t0 lv1 lv2 lv3 d1 d2
    by (simp add: Put_found_def Let_def lv_def [symmetric] kEnd_def [symmetric] vo4_def [symmetric]
          d_def [symmetric])
  with ld2 frame show ?thesis
    unfolding kEnd_def vo4_def by blast
qed

text \<open>The two writes of the in-place branch, in their order.\<close>

lemma Put_found_in_place_writes:
  fixes m :: LFUMap
  defines "d \<equiv> data (kvHolder m)"
  assumes co: "consts_ordered c"
    and h: "LoadUint32_at d (unat (offset (groups m ! g ! s) * 4 + 16)) = Some vHeader"
    and vo: "unat ((vHeader AND IdxOffsetMask) * 4) \<le> length d"
    and t0: "valType (groups m ! g ! s) = 0"
    and short: "length val < unat (overShortSize c)"
    and fits: "length val \<le> unat (capOrBigSize (groups m ! g ! s) * 4)"
  shows "\<exists>d1 d'. StoreUint32_at d (unat (offset (groups m ! g ! s) * 4 + 16))
                   ((vHeader AND IdxOffsetMask) + push_bit 24 (of_nat (length val))) = Some d1 \<and>
           copy_at d1 (unat ((vHeader AND IdxOffsetMask) * 4)) val = Some d' \<and>
           Put_found c m g s val = Some (True, m\<lparr>kvHolder := (kvHolder m)\<lparr>data := d'\<rparr>\<rparr>)"
proof -
  define lv :: uint32 where "lv = of_nat (length val)"
  define kEnd where "kEnd = unat (offset (groups m ! g ! s) * 4 + 16)"
  define vo4 where "vo4 = unat ((vHeader AND IdxOffsetMask) * 4)"
  have lvn: "unat lv = length val"
    using short le_unat_uoi [of "length val" "overShortSize c"] by (simp add: lv_def)
  have lv1: "lv < overShortSize c" using short lvn by (simp add: word_less_nat_alt)
  have lv2: "lv \<le> capOrBigSize (groups m ! g ! s) * 4" using fits lvn by (simp add: word_le_nat_alt)
  have lv3: "\<not> overShortSize c \<le> lv" "\<not> overLongSize c \<le> lv" "\<not> limitSize c \<le> lv"
    using lv1 co by (auto simp: consts_ordered_def)
  have kEnd4: "kEnd + 4 \<le> length d"
    using h by (auto simp: LoadUint32_at_def kEnd_def split: if_splits)
  obtain d1 where d1: "StoreUint32_at d kEnd ((vHeader AND IdxOffsetMask) + push_bit 24 lv) = Some d1"
    using StoreUint32_at_Some [OF kEnd4] by blast
  have ld1: "length d1 = length d" using d1 by (rule length_StoreUint32_at)
  obtain d2 where d2: "copy_at d1 vo4 val = Some d2"
    using copy_at_Some [of vo4 d1 val] vo ld1 by (auto simp: vo4_def)
  have "Put_found c m g s val = Some (True, m\<lparr>kvHolder := (kvHolder m)\<lparr>data := d2\<rparr>\<rparr>)"
    using h t0 lv1 lv2 lv3 d1 d2
    by (simp add: Put_found_def Let_def lv_def [symmetric] kEnd_def [symmetric] vo4_def [symmetric]
          d_def [symmetric])
  with d1 d2 show ?thesis
    unfolding kEnd_def vo4_def lv_def by blast
qed

lemma RePut_found_eq_Put_found:
  assumes "(of_nat (length val) :: uint32) < overLongSize c" "overLongSize c \<le> limitSize c"
  shows "RePut_found c m g s val = Put_found c m g s val"
proof -
  have 1: "\<not> overLongSize c \<le> (of_nat (length val) :: uint32)"
    "\<not> limitSize c \<le> (of_nat (length val) :: uint32)"
    using assms by auto
  show ?thesis
    unfolding RePut_found_def Put_found_def Let_def using 1 by simp
qed

lemma Put_found_long_tail:
  fixes m :: LFUMap and g s :: nat and val :: "byte list"
  defines "kv \<equiv> kvHolder m" and "idx \<equiv> groups m ! g ! s"
  defines "lv \<equiv> (of_nat (length val) :: uint32)"
  assumes h: "LoadUint32_at (data kv) (unat (offset idx * 4 + 16)) = Some h"
    and rel: "release_old c kv idx h = Some kv1"
    and lv: "overLongSize c \<le> lv" "lv < limitSize c"
    and room: "tail kv + 20 + (Cap4Size lv + 4) \<le> cap kv"
    and t: "unat (tail kv) + 4 \<le> length (data kv)" "unat (tail kv + 4) \<le> length (data kv)"
  shows "\<exists>m'. Put_found c m g s val = Some (True, m') \<and>
              tail (kvHolder m') = tail kv + 20 + (Cap4Size lv + 4)"
proof -
  note kf = release_old_fields [OF rel]
  have kEnd4: "unat (offset idx * 4 + 16) + 4 \<le> length (data kv)"
    using h by (auto simp: LoadUint32_at_def split: if_splits)
  obtain d1 where d1: "StoreUint32_at (data kv) (unat (tail kv)) lv = Some d1"
    using StoreUint32_at_Some [OF t(1)] by blast
  have l1: "length d1 = length (data kv)" using d1 by (rule length_StoreUint32_at)
  obtain d2 where d2: "copy_at d1 (unat (tail kv + 4)) val = Some d2"
    using copy_at_Some [of "unat (tail kv + 4)" d1 val] t(2) l1 by auto
  have l2: "length d2 = length (data kv)" using d2 l1 by (simp add: length_copy_at)
  obtain d3 where d3: "StoreUint32_at d2 (unat (offset idx * 4 + 16))
        (tail kv div storeUintBytes + overLongStoreHeaderL c) = Some d3"
    using StoreUint32_at_Some [of "unat (offset idx * 4 + 16)" d2] kEnd4 l2 by auto
  have n1: "\<not> limitSize c \<le> lv" "\<not> cap kv < tail kv + 20 + (Cap4Size lv + 4)"
    using lv(2) room by (simp_all add: not_le not_less)
  show ?thesis
    using h rel lv(1) n1 kf d1 d2 d3
    by (simp add: Put_found_def Let_def kv_def [symmetric] idx_def [symmetric] lv_def [symmetric])
qed

lemma RePut_found_long_tail:
  fixes m :: LFUMap and g s :: nat and val :: "byte list"
  defines "kv \<equiv> kvHolder m" and "idx \<equiv> groups m ! g ! s"
  defines "lv \<equiv> (of_nat (length val) :: uint32)"
  assumes h: "LoadUint32_at (data kv) (unat (offset idx * 4 + 16)) = Some h"
    and rel: "release_old c kv idx h = Some kv1"
    and lv: "overLongSize c \<le> lv"
    and room: "tail kv + 4 + (Cap4Size lv + 4) \<le> cap kv"
    and t: "unat (tail kv) + 4 \<le> length (data kv)" "unat (tail kv + 4) \<le> length (data kv)"
  shows "\<exists>m'. RePut_found c m g s val = Some (True, m') \<and>
              tail (kvHolder m') = tail kv + 4 + (Cap4Size lv + 4)"
proof -
  note kf = release_old_fields [OF rel]
  have kEnd4: "unat (offset idx * 4 + 16) + 4 \<le> length (data kv)"
    using h by (auto simp: LoadUint32_at_def split: if_splits)
  obtain d1 where d1: "StoreUint32_at (data kv) (unat (tail kv)) lv = Some d1"
    using StoreUint32_at_Some [OF t(1)] by blast
  have l1: "length d1 = length (data kv)" using d1 by (rule length_StoreUint32_at)
  obtain d2 where d2: "copy_at d1 (unat (tail kv + 4)) val = Some d2"
    using copy_at_Some [of "unat (tail kv + 4)" d1 val] t(2) l1 by auto
  have l2: "length d2 = length (data kv)" using d2 l1 by (simp add: length_copy_at)
  obtain d3 where d3: "StoreUint32_at d2 (unat (offset idx * 4 + 16))
        (tail kv div storeUintBytes + overLongStoreHeaderL c) = Some d3"
    using StoreUint32_at_Some [of "unat (offset idx * 4 + 16)" d2] kEnd4 l2 by auto
  have n1: "\<not> cap kv < tail kv + 4 + (Cap4Size lv + 4)"
    using room by (simp_all add: not_le not_less)
  show ?thesis
    using h rel lv(1) n1 kf d1 d2 d3
    by (simp add: RePut_found_def Let_def kv_def [symmetric] idx_def [symmetric] lv_def [symmetric])
qed

section \<open>The counts of the shard\<close>

subsection \<open>Counting slots\<close>

definition occupied :: "8 word \<Rightarrow> bool" where
  "occupied b \<longleftrightarrow> b \<noteq> empty_meta \<and> b \<noteq> tombstone"

definition count_slots :: "(8 word \<Rightarrow> bool) \<Rightarrow> metadata list \<Rightarrow> nat" where
  "count_slots P ct = sum_list (map (\<lambda>row. length (filter P row)) ct)"

definition counts_ok :: "LFUMap \<Rightarrow> bool" where
  "counts_ok m \<longleftrightarrow>
     items (kvHolder m) = of_nat (count_slots occupied (ctrl m)) \<and>
     dead m = of_nat (count_slots (\<lambda>b. b = tombstone) (ctrl m)) \<and>
     resident m = of_nat (count_slots occupied (ctrl m) + count_slots (\<lambda>b. b = tombstone) (ctrl m))"

lemma filter_update_count:
  assumes "s < length row"
  shows "length (filter P (row[s := v])) + (if P (row ! s) then 1 else 0)
         = length (filter P row) + (if P v then 1 else 0)"
proof -
  have row: "row = take s row @ row ! s # drop (Suc s) row"
    using assms by (simp add: id_take_nth_drop)
  have upd: "row[s := v] = take s row @ v # drop (Suc s) row"
    using assms by (simp add: upd_conv_take_nth_drop)
  show ?thesis
    by (subst (2) row, subst upd) simp
qed

lemma sum_list_update_nat:
  fixes xs :: "nat list"
  assumes "g < length xs"
  shows "sum_list (xs[g := v]) + xs ! g = sum_list xs + v"
proof -
  have xs: "xs = take g xs @ xs ! g # drop (Suc g) xs"
    using assms by (simp add: id_take_nth_drop)
  have upd: "xs[g := v] = take g xs @ v # drop (Suc g) xs"
    using assms by (simp add: upd_conv_take_nth_drop)
  show ?thesis
    by (subst (3) xs, subst upd) simp
qed

lemma count_slots_set2:
  assumes "g < length ct" "s < length (ct ! g)"
  shows "count_slots P (set2 ct g s v) + (if P (ct ! g ! s) then 1 else 0)
         = count_slots P ct + (if P v then 1 else 0)"
proof -
  let ?f = "\<lambda>row. length (filter P row)"
  have "map ?f (set2 ct g s v) = (map ?f ct)[g := ?f ((ct ! g)[s := v])]"
    by (simp add: set2_def map_update)
  then have "count_slots P (set2 ct g s v) + ?f (ct ! g) = count_slots P ct + ?f ((ct ! g)[s := v])"
    using sum_list_update_nat [of g "map ?f ct" "?f ((ct ! g)[s := v])"] assms(1)
    by (simp add: count_slots_def)
  with filter_update_count [OF assms(2), of P v] show ?thesis by linarith
qed

lemma count_slots_pos:
  assumes "g < length ct" "s < length (ct ! g)" "P (ct ! g ! s)"
  shows "0 < count_slots P ct"
proof -
  have "ct ! g ! s \<in> set (filter P (ct ! g))" using assms by simp
  then have "0 < length (filter P (ct ! g))" by (metis length_pos_if_in_set)
  moreover have "length (filter P (ct ! g)) \<le> count_slots P ct"
    unfolding count_slots_def using assms(1)
    by (intro member_le_sum_list) (auto simp: in_set_conv_nth intro!: image_eqI [where x = "ct ! g"])
  ultimately show ?thesis by linarith
qed


lemma tag_occupied: "b < 0x80 \<Longrightarrow> occupied b"
  by (auto simp: occupied_def empty_meta_def tombstone_def)

subsection \<open>Effects of the updates on the counts\<close>

definition update_effect :: "LFUMap \<Rightarrow> nat \<Rightarrow> nat \<Rightarrow> bool \<Rightarrow> LFUMap \<Rightarrow> bool" where
  "update_effect m g s ok m' \<longleftrightarrow>
     (if ok then ctrl m' = ctrl m \<and> items (kvHolder m') = items (kvHolder m) \<and> dead m' = dead m
      else ctrl m' = set2 (ctrl m) g s tombstone \<and>
           items (kvHolder m') = items (kvHolder m) - 1 \<and> dead m' = dead m + 1) \<and>
     resident m' = resident m"

lemma release_old_items: "release_old c kv idx h = Some kv' \<Longrightarrow> items kv' = items kv"
  by (auto simp: release_old_def Let_def split: if_splits Option.bind_splits)

lemma tombstone_slot_effect:
  "tombstone_slot m g s = Some m' \<Longrightarrow>
   ctrl m' = set2 (ctrl m) g s tombstone \<and> items (kvHolder m') = items (kvHolder m) - 1 \<and>
   dead m' = dead m + 1 \<and> resident m' = resident m"
  by (auto simp: tombstone_slot_def split: if_splits)

lemma Put_found_effect:
  "Put_found c m g s val = Some (ok, m') \<Longrightarrow> update_effect m g s ok m'"
  unfolding Put_found_def Let_def update_effect_def
  by (auto split: if_splits Option.bind_splits
           dest!: release_old_items tombstone_slot_effect)


lemma PutMultiValue_found_effect:
  "PutMultiValue_found c m g s vlen vals = Some (ok, m') \<Longrightarrow> update_effect m g s ok m'"
  unfolding PutMultiValue_found_def Let_def update_effect_def
  by (auto split: if_splits Option.bind_splits
           dest!: release_old_items tombstone_slot_effect)

lemma RePut_found_effect:
  "RePut_found c m g s val = Some (ok, m') \<Longrightarrow> update_effect m g s ok m'"
  unfolding RePut_found_def Let_def update_effect_def
  by (auto split: if_splits Option.bind_splits
           dest!: release_old_items tombstone_slot_effect)

lemma of_nat_pred: "0 < n \<Longrightarrow> (of_nat (n - 1) :: uint32) = of_nat n - 1"
  by (cases n) simp_all

lemma update_effect_counts:
  assumes ok: "counts_ok m" and eff: "update_effect m g s b m'"
    and g: "g < length (ctrl m)" and s: "s < length (ctrl m ! g)"
    and occ: "occupied (ctrl m ! g ! s)"
  shows "counts_ok m'"
proof (cases b)
  case True
  with ok eff show ?thesis by (simp add: counts_ok_def update_effect_def)
next
  case False
  let ?ct = "ctrl m" and ?T = "\<lambda>b. b = tombstone"
  have nt: "ctrl m ! g ! s \<noteq> tombstone" using occ by (simp add: occupied_def)
  have o: "count_slots occupied (set2 ?ct g s tombstone) + 1 = count_slots occupied ?ct"
    using count_slots_set2 [OF g s, of occupied tombstone] occ by (simp add: occupied_def)
  have t: "count_slots ?T (set2 ?ct g s tombstone) = count_slots ?T ?ct + 1"
    using count_slots_set2 [OF g s, of ?T tombstone] nt by simp
  have o': "(of_nat (count_slots occupied (set2 ?ct g s tombstone)) :: uint32)
            = of_nat (count_slots occupied ?ct) - 1"
    using o by (metis add_diff_cancel_right' of_nat_1 of_nat_add)
  show ?thesis
    using False ok eff o t o'
    by (simp add: counts_ok_def update_effect_def)
qed

lemma append_record_items:
  "append_record c kv key val = Some (Some (idx, kv1)) \<Longrightarrow> items kv1 = items kv + 1"
  unfolding append_record_def Let_def
  by (auto split: if_splits Option.bind_splits)

lemma counts_insert:
  assumes ok: "counts_ok m"
    and g: "g < length (ctrl m)" and e: "metaMatchEmpty (ctrl m ! g) \<noteq> 0"
    and lo: "lo < 0x80"
    and m': "ctrl m' = set2 (ctrl m) g (fst (nextMatch (metaMatchEmpty (ctrl m ! g)))) lo"
      "items (kvHolder m') = items (kvHolder m) + 1" "resident m' = resident m + 1" "dead m' = dead m"
  shows "counts_ok m'"
proof -
  let ?s = "fst (nextMatch (metaMatchEmpty (ctrl m ! g)))"
  let ?T = "\<lambda>b. b = tombstone"
  note fe = first_empty_slot [OF e]
  have occ: "occupied lo" using lo by (rule tag_occupied)
  have o: "count_slots occupied (set2 (ctrl m) g ?s lo) = count_slots occupied (ctrl m) + 1"
    using count_slots_set2 [OF g fe(1), of occupied lo] fe(2) occ by (simp add: occupied_def)
  have t: "count_slots ?T (set2 (ctrl m) g ?s lo) = count_slots ?T (ctrl m)"
    using count_slots_set2 [OF g fe(1), of ?T lo] fe(2) occ
    by (simp add: occupied_def empty_meta_def tombstone_def)
  show ?thesis using ok m' o t by (simp add: counts_ok_def)
qed

lemma RePut_insert_counts:
  assumes "counts_ok m" "g < length (ctrl m)" "metaMatchEmpty (ctrl m ! g) \<noteq> 0" "lo < 0x80"
    and r: "RePut_insert c m lo g key val = Some (ok, m')"
  shows "counts_ok m'"
proof (cases "append_record c (kvHolder m) key val")
  case None
  with r show ?thesis by (simp add: RePut_insert_def Let_def)
next
  case (Some a)
  show ?thesis
  proof (cases a)
    case None
    with Some r assms(1) show ?thesis by (simp add: RePut_insert_def Let_def)
  next
    case (Some p)
    obtain idx kv1 where p: "p = (idx, kv1)" by (cases p)
    have ar: "append_record c (kvHolder m) key val = Some (Some (idx, kv1))"
      using \<open>append_record c (kvHolder m) key val = Some a\<close> Some p by simp
    from r ar have m': "m' = m\<lparr>groups := set2 (groups m) g (fst (nextMatch (metaMatchEmpty (ctrl m ! g)))) idx,
                               kvHolder := kv1,
                               ctrl := set2 (ctrl m) g (fst (nextMatch (metaMatchEmpty (ctrl m ! g)))) lo,
                               counters := set2 (counters m) g (fst (nextMatch (metaMatchEmpty (ctrl m ! g)))) 1,
                               resident := resident m + 1\<rparr>"
      by (auto simp: RePut_insert_def Let_def split: if_splits)
    show ?thesis
      using assms(1-4) append_record_items [OF ar]
      by (intro counts_insert [of m g lo m']) (simp_all add: m')
  qed
qed

lemma Delete_found_counts:
  assumes ok: "counts_ok m" and g: "g < length (ctrl m)" and s: "s < length (ctrl m ! g)"
    and occ: "occupied (ctrl m ! g ! s)"
    and r: "Delete_found m g s = Some m'"
  shows "counts_ok m'"
proof -
  let ?T = "\<lambda>b. b = tombstone"
  have nt: "ctrl m ! g ! s \<noteq> tombstone" using occ by (simp add: occupied_def)
  have pos: "0 < count_slots occupied (ctrl m)" using g s occ by (rule count_slots_pos)
  show ?thesis
  proof (cases "metaMatchEmpty (ctrl m ! g) \<noteq> 0")
    case True
    have o: "count_slots occupied (set2 (ctrl m) g s empty_meta) + 1 = count_slots occupied (ctrl m)"
      using count_slots_set2 [OF g s, of occupied empty_meta] occ by (simp add: occupied_def)
    have t: "count_slots ?T (set2 (ctrl m) g s empty_meta) = count_slots ?T (ctrl m)"
      using count_slots_set2 [OF g s, of ?T empty_meta] nt
      by (simp add: empty_meta_def tombstone_def)
    have o': "(of_nat (count_slots occupied (set2 (ctrl m) g s empty_meta)) :: uint32)
            = of_nat (count_slots occupied (ctrl m)) - 1"
      using o by (metis add_diff_cancel_right' of_nat_1 of_nat_add)
    show ?thesis
      using True r ok o' t o
      by (auto simp: Delete_found_def Let_def del_def counts_ok_def split: if_splits)
  next
    case False
    have o: "count_slots occupied (set2 (ctrl m) g s tombstone) + 1 = count_slots occupied (ctrl m)"
      using count_slots_set2 [OF g s, of occupied tombstone] occ by (simp add: occupied_def)
    have t: "count_slots ?T (set2 (ctrl m) g s tombstone) = count_slots ?T (ctrl m) + 1"
      using count_slots_set2 [OF g s, of ?T tombstone] nt by simp
    have o': "(of_nat (count_slots occupied (set2 (ctrl m) g s tombstone)) :: uint32)
            = of_nat (count_slots occupied (ctrl m)) - 1"
      using o by (metis add_diff_cancel_right' of_nat_1 of_nat_add)
    show ?thesis
      using False r ok o' t o
      by (auto simp: Delete_found_def Let_def del_def counts_ok_def split: if_splits)
  qed
qed

lemma Eliminate_items_counts:
  "counts_ok m \<Longrightarrow> Eliminate_items m k item = Some (m', k') \<Longrightarrow> counts_ok m'"
proof (induction m k item rule: Eliminate_items.induct)
  case (1 m delCount)
  then show ?case by simp
next
  case (2 m delCount g s rest)
  let ?T = "\<lambda>b. b = tombstone"
  from "2.prems"(2) have g: "g < length (ctrl m)" and s: "s < length (ctrl m ! g)"
    by (auto split: if_splits)
  show ?case
  proof (cases "ctrl m ! g ! s = tombstone \<or> ctrl m ! g ! s = empty_meta")
    case True
    with 2 g s show ?thesis by simp
  next
    case False
    then have occ: "occupied (ctrl m ! g ! s)" by (simp add: occupied_def)
    let ?m1 = "m\<lparr>kvHolder := del (kvHolder m) (groups m ! g ! s),
               groups := set2 (groups m) g s 0,
               ctrl := set2 (ctrl m) g s tombstone,
               dead := dead m + 1\<rparr>"
    have gg: "g < length (groups m) \<and> s < length (groups m ! g)"
      using "2.prems"(2) False g s by (auto split: if_splits)
    have step: "Eliminate_items ?m1 (delCount + 1) rest = Some (m', k')"
      using "2.prems"(2) False g s gg by simp
    have "update_effect m g s False ?m1"
      by (simp add: update_effect_def del_def)
    then have "counts_ok ?m1"
      using "2.prems"(1) g s occ by (intro update_effect_counts [of m g s False ?m1]) simp_all
    then show ?thesis
      using "2.IH"(2) False g s gg step by simp
  qed
qed


subsection \<open>The rebuilt tables\<close>

text \<open>
  The tables under construction in \<open>rehash\<close> and \<open>GCCopy\<close>: \<open>k\<close> slots are occupied, none is
  a tombstone, and the new arena holds \<open>k\<close> items.
\<close>

definition rebuilt :: "LFUMap \<Rightarrow> nat \<Rightarrow> bool" where
  "rebuilt new k \<longleftrightarrow>
     count_slots occupied (ctrl new) = k \<and>
     count_slots (\<lambda>b. b = tombstone) (ctrl new) = 0 \<and>
     items (kvHolder new) = of_nat k \<and> resident new = of_nat k"

lemma gcSet_items: "gcSet c kv k v = Some (idx, kv1) \<Longrightarrow> items kv1 = items kv + 1"
  by (auto simp: gcSet_def split: option.splits dest: append_record_items)

lemma reinsert_rebuilt:
  assumes "rebuilt new k" and r: "reinsert c md5hl old new (g, s) = Return new'"
  shows "rebuilt new' (k + (if occupied (ctrl old ! g ! s) then 1 else 0))"
proof (cases "occupied (ctrl old ! g ! s)")
  case False
  with assms show ?thesis by (auto simp: reinsert_def occupied_def)
next
  case True
  then have ne: "\<not> (ctrl old ! g ! s = empty_meta \<or> ctrl old ! g ! s = tombstone)"
    by (simp add: occupied_def)
  from r ne obtain kk v where kv: "getKVUnlock c (kvHolder old) (groups old ! g ! s) = Some (kk, v)"
    by (auto simp: reinsert_def split: if_splits option.splits)
  define lo where "lo = snd (splitHash (md5hl kk))"
  define g0 where "g0 = probeStart (fst (splitHash (md5hl kk))) (length (groups new))"
  from r ne kv obtain gN where fe: "find_empty (ctrl new) (length (groups new)) g0 = Some (Miss gN)"
    by (auto simp: reinsert_def split_beta g0_def Let_def split: if_splits option.splits probe_result.splits)
  note fm = find_empty_Miss [OF fe]
  define sN where "sN = fst (nextMatch (metaMatchEmpty (ctrl new ! gN)))"
  note fs = first_empty_slot [OF fm(2), folded sN_def]
  from r ne kv fe obtain idx kv1 where gc: "gcSet c (kvHolder new) kk v = Some (idx, kv1)"
    and new': "new' = new\<lparr>groups := set2 (groups new) gN sN idx, kvHolder := kv1,
                          ctrl := set2 (ctrl new) gN sN lo,
                          counters := set2 (counters new) gN sN (counters old ! g ! s),
                          resident := resident new + 1\<rparr>"
    by (auto simp: reinsert_def split_beta g0_def [symmetric] lo_def [symmetric] sN_def [symmetric] Let_def
             split: if_splits option.splits)
  let ?T = "\<lambda>b. b = tombstone"
  have occ: "occupied lo" unfolding lo_def by (rule tag_occupied [OF splitHash_tag])
  have o: "count_slots occupied (set2 (ctrl new) gN sN lo) = count_slots occupied (ctrl new) + 1"
    using count_slots_set2 [OF fm(1) fs(1), of occupied lo] fs(2) occ by (simp add: occupied_def)
  have t: "count_slots ?T (set2 (ctrl new) gN sN lo) = count_slots ?T (ctrl new)"
    using count_slots_set2 [OF fm(1) fs(1), of ?T lo] fs(2) occ
    by (simp add: occupied_def empty_meta_def tombstone_def)
  show ?thesis
    using assms(1) True o t gcSet_items [OF gc]
    by (simp add: rebuilt_def new')
qed

lemma reinsert_all_rebuilt:
  "rebuilt new k \<Longrightarrow> reinsert_all c md5hl old new xs = Return new' \<Longrightarrow>
   rebuilt new' (k + length (filter (\<lambda>(g, s). occupied (ctrl old ! g ! s)) xs))"
proof (induction xs arbitrary: new k)
  case Nil
  then show ?case by simp
next
  case (Cons x xs)
  obtain g s where x: "x = (g, s)" by (cases x)
  from Cons.prems(2) obtain new1 where
    r1: "reinsert c md5hl old new (g, s) = Return new1"
    and r2: "reinsert_all c md5hl old new1 xs = Return new'"
    by (auto simp: x split: outcome.splits)
  from Cons.IH [OF reinsert_rebuilt [OF Cons.prems(1) r1] r2] show ?case
    by (cases "occupied (ctrl old ! g ! s)") (simp_all add: x)
qed

lemma count_row:
  "length (filter (\<lambda>s. P (row ! s)) [0..<length row]) = length (filter P row)"
proof -
  have "length (filter (\<lambda>s. P (row ! s)) [0..<length row])
        = length (filter P (map (\<lambda>s. row ! s) [0..<length row]))"
    by (simp add: filter_map comp_def)
  then show ?thesis by (simp only: map_nth)
qed

lemma count_all_slots:
  "length (filter (\<lambda>(g, s). P (ct ! g ! s))
             (concat (map (\<lambda>g. map (\<lambda>s. (g, s)) [0..<length (ct ! g)]) [0..<length ct])))
   = count_slots P ct"
proof -
  have "length (filter (\<lambda>(g, s). P (ct ! g ! s))
             (concat (map (\<lambda>g. map (\<lambda>s. (g, s)) [0..<length (ct ! g)]) [0..<length ct])))
        = sum_list (map (\<lambda>g. length (filter P (ct ! g))) [0..<length ct])"
    by (simp add: filter_concat length_concat comp_def filter_map count_row)
  also have "\<dots> = sum_list (map (\<lambda>row. length (filter P row)) (map (\<lambda>g. ct ! g) [0..<length ct]))"
    by (simp add: comp_def)
  also have "\<dots> = count_slots P ct"
    by (simp only: map_nth count_slots_def)
  finally show ?thesis .
qed

lemma count_slots_replicate_empty:
  "\<not> P empty_meta \<Longrightarrow> count_slots P (replicate n newEmptyMetadata) = 0"
  by (simp add: count_slots_def newEmptyMetadata_def sum_list_replicate)

lemma fresh_tables_rebuilt: "rebuilt (fresh_tables m n) 0"
  by (simp add: rebuilt_def fresh_tables_def newKVHolder_def count_slots_replicate_empty
        occupied_def empty_meta_def tombstone_def)

lemma rehash_counts:
  assumes "rehash c md5hl m = Return m'"
  shows "counts_ok m'"
proof -
  from assms obtain new where
    r: "reinsert_all c md5hl m (fresh_tables m (unat (nextSize m))) (all_slots m) = Return new"
    and m': "m' = m\<lparr>groups := groups new, ctrl := ctrl new, counters := counters new,
                     kvHolder := kvHolder new, limit := nextSize m * maxAvgGroupLoad,
                     resident := resident new, dead := 0\<rparr>"
    by (auto simp: rehash_def Let_def split: outcome.splits)
  from reinsert_all_rebuilt [OF fresh_tables_rebuilt r] show ?thesis
    by (simp add: rebuilt_def counts_ok_def m')
qed

lemma GCCopy_counts:
  assumes "counts_ok m" and "GCCopy gb c md5hl m = Return (res, m')"
  shows "counts_ok m'"
proof (cases "gb (kvHolder m) \<or> rehashing m")
  case True
  with assms show ?thesis by (auto simp: GCCopy_def split: if_splits)
next
  case False
  with assms(2) obtain new where
    r: "reinsert_all c md5hl m (fresh_tables m (length (groups m))) (all_slots m) = Return new"
    and m': "m' = m\<lparr>groups := groups new, ctrl := ctrl new, counters := counters new,
                     kvHolder := kvHolder new,
                     resident := resident m - dead m, dead := 0, rehashing := False\<rparr>"
    by (auto simp: GCCopy_def Let_def split: outcome.splits)
  have "rebuilt new (count_slots occupied (ctrl m))"
    using reinsert_all_rebuilt [OF fresh_tables_rebuilt r]
    by (simp add: all_slots_def count_all_slots)
  with assms(1) show ?thesis
    by (simp add: rebuilt_def counts_ok_def m')
qed

lemma count_slots_cleared:
  "\<not> P empty_meta \<Longrightarrow> count_slots P (map (map (\<lambda>_. empty_meta)) ct) = 0"
  by (simp add: count_slots_def comp_def filter_map sum_list_0)

lemma Clear_counts: "counts_ok (Clear m)"
proof -
  have "count_slots occupied (map (map (\<lambda>_. empty_meta)) (ctrl m)) = 0"
    by (rule count_slots_cleared) (simp add: occupied_def)
  moreover have "count_slots (\<lambda>b. b = tombstone) (map (map (\<lambda>_. empty_meta)) (ctrl m)) = 0"
    by (rule count_slots_cleared) (simp add: empty_meta_def tombstone_def)
  ultimately show ?thesis
    by (simp add: counts_ok_def Clear_def newKVHolder_def)
qed

lemma newInnerLFUMap_counts: "counts_ok (newInnerLFUMap sz memMax)"
  by (simp add: counts_ok_def newInnerLFUMap_def Let_def newKVHolder_def
        count_slots_replicate_empty occupied_def empty_meta_def tombstone_def)


lemma after_Return: "after r = Return m' \<longleftrightarrow> (\<exists>x. r = Return (x, m'))"
  by (auto simp: after_def split: outcome.splits)

lemma Put_counts:
  assumes "counts_ok m" "Put c m l key val = Return (ok, m')"
  shows "counts_ok m'"
proof (cases "find_slot m l key")
  case None
  with assms show ?thesis by (simp add: Put_def)
next
  case (Some r)
  show ?thesis
  proof (cases r)
    case (Hit g s)
    note h = find_slot_Hit [OF Some [unfolded Hit]]
    from assms(2) Some Hit have "Put_found c m g s val = Some (ok, m')"
      by (auto simp: Put_def split: option.splits)
    then have "update_effect m g s ok m'" by (rule Put_found_effect)
    then show ?thesis
      using assms(1) h tag_occupied [OF splitHash_tag, of l]
      by (intro update_effect_counts [of m g s ok m']) simp_all
  qed (use assms Some in \<open>auto simp: Put_def\<close>)
qed

lemma PutMultiValue_counts:
  assumes "counts_ok m" "PutMultiValue c m l key vlen vals = Return (ok, m')"
  shows "counts_ok m'"
proof (cases "find_slot m l key")
  case None
  with assms show ?thesis by (simp add: PutMultiValue_def)
next
  case (Some r)
  show ?thesis
  proof (cases r)
    case (Hit g s)
    note h = find_slot_Hit [OF Some [unfolded Hit]]
    from assms(2) Some Hit have "PutMultiValue_found c m g s vlen vals = Some (ok, m')"
      by (auto simp: PutMultiValue_def split: option.splits)
    then have "update_effect m g s ok m'" by (rule PutMultiValue_found_effect)
    then show ?thesis
      using assms(1) h tag_occupied [OF splitHash_tag, of l]
      by (intro update_effect_counts [of m g s ok m']) simp_all
  qed (use assms Some in \<open>auto simp: PutMultiValue_def\<close>)
qed

lemma Delete_counts:
  assumes "counts_ok m" "Delete m l key = Return (ok, m')"
  shows "counts_ok m'"
proof (cases "find_slot m l key")
  case None
  with assms show ?thesis by (simp add: Delete_def)
next
  case (Some r)
  show ?thesis
  proof (cases r)
    case (Hit g s)
    note h = find_slot_Hit [OF Some [unfolded Hit]]
    from assms(2) Some Hit have "Delete_found m g s = Some m'"
      by (auto simp: Delete_def split: option.splits)
    then show ?thesis
      using assms(1) h tag_occupied [OF splitHash_tag, of l]
      by (intro Delete_found_counts [of m g s m']) simp_all
  qed (use assms Some in \<open>auto simp: Delete_def\<close>)
qed

lemma probe_after_counts:
  assumes "counts_ok m1"
    and "(case find_slot m1 l key of
               None \<Rightarrow> NoReturn
             | Some ProbePanic \<Rightarrow> Panic
             | Some (Hit g s) \<Rightarrow>
                 (case RePut_found c m1 g s val of None \<Rightarrow> Panic | Some r \<Rightarrow> Return r)
             | Some (Miss g) \<Rightarrow>
                 (case RePut_insert c m1 (snd (splitHash l)) g key val of
                    None \<Rightarrow> Panic | Some r \<Rightarrow> Return r)) = Return (ok, m')"
  shows "counts_ok m'"
proof (cases "find_slot m1 l key")
  case None
  with assms show ?thesis by simp
next
  case (Some r)
  show ?thesis
  proof (cases r)
    case (Hit g s)
    note h = find_slot_Hit [OF Some [unfolded Hit]]
    from assms(2) Some Hit have "RePut_found c m1 g s val = Some (ok, m')"
      by (auto split: option.splits)
    then have "update_effect m1 g s ok m'" by (rule RePut_found_effect)
    then show ?thesis
      using assms(1) h tag_occupied [OF splitHash_tag, of l]
      by (intro update_effect_counts [of m1 g s ok m']) simp_all
  next
    case (Miss g)
    note h = find_slot_Miss [OF Some [unfolded Miss]]
    from assms(2) Some Miss have "RePut_insert c m1 (snd (splitHash l)) g key val = Some (ok, m')"
      by (auto split: option.splits)
    then show ?thesis
      using assms(1) h splitHash_tag [of l]
      by (intro RePut_insert_counts [of m1 g "snd (splitHash l)" c key val ok m']) simp_all
  next
    case ProbePanic
    with assms Some show ?thesis by simp
  qed
qed

lemma counts_ok_rehashing [simp]: "counts_ok (m\<lparr>rehashing := b\<rparr>) = counts_ok m"
  by (simp add: counts_ok_def)

lemma RePut_counts:
  assumes "counts_ok m" "RePut c md5hl m l key val = Return (ok, m')"
  shows "counts_ok m'"
proof (cases "kvlimit (kvHolder m) \<le> tail (kvHolder m) \<or> rehashing m")
  case True
  with assms show ?thesis by (auto simp: RePut_def split: if_splits)
next
  case False
  show ?thesis
  proof (cases "limit m \<le> resident m")
    case True
    from assms(2) False True obtain m1 where
      r: "rehash c md5hl (m\<lparr>rehashing := True\<rparr>) = Return m1"
      by (auto simp: RePut_def split: outcome.splits)
    have "counts_ok (m1\<lparr>rehashing := False\<rparr>)" using rehash_counts [OF r] by simp
    moreover have "(case find_slot (m1\<lparr>rehashing := False\<rparr>) l key of
               None \<Rightarrow> NoReturn
             | Some ProbePanic \<Rightarrow> Panic
             | Some (Hit g s) \<Rightarrow>
                 (case RePut_found c (m1\<lparr>rehashing := False\<rparr>) g s val of None \<Rightarrow> Panic | Some r \<Rightarrow> Return r)
             | Some (Miss g) \<Rightarrow>
                 (case RePut_insert c (m1\<lparr>rehashing := False\<rparr>) (snd (splitHash l)) g key val of
                    None \<Rightarrow> Panic | Some r \<Rightarrow> Return r)) = Return (ok, m')"
      using assms(2) False True r by (simp add: RePut_def)
    ultimately show ?thesis by (rule probe_after_counts)
  next
    case F: False
    have "(case find_slot m l key of
               None \<Rightarrow> NoReturn
             | Some ProbePanic \<Rightarrow> Panic
             | Some (Hit g s) \<Rightarrow>
                 (case RePut_found c m g s val of None \<Rightarrow> Panic | Some r \<Rightarrow> Return r)
             | Some (Miss g) \<Rightarrow>
                 (case RePut_insert c m (snd (splitHash l)) g key val of
                    None \<Rightarrow> Panic | Some r \<Rightarrow> Return r)) = Return (ok, m')"
      using assms(2) False F by (simp add: RePut_def)
    with assms(1) show ?thesis by (rule probe_after_counts)
  qed
qed

lemma age_counters_fields:
  "counts_ok m \<Longrightarrow> counts_ok (m\<lparr>counters := cs\<rparr>)"
  by (simp add: counts_ok_def)

lemma Eliminate_counts:
  assumes "counts_ok m" "Eliminate p m = Return (r, m')"
  shows "counts_ok m'"
proof (cases "guard1 p m \<or> guard2 p m \<or> guard3 p m")
  case True
  with assms show ?thesis
    by (auto simp: Eliminate_def guard1_def guard2_def guard3_def Let_def split: if_splits)
next
  case False
  obtain item x where b: "BuildMinTopCounter p (ctrl m) (counters m) (dropCount p (items (kvHolder m))) = (item, x)"
    by (cases "BuildMinTopCounter p (ctrl m) (counters m) (dropCount p (items (kvHolder m)))")
  from assms(2) False b obtain m1 k cs where
    e: "Eliminate_items m 0 item = Some (m1, k)" and m': "m' = m1\<lparr>counters := cs\<rparr>"
    by (auto simp: Eliminate_def guard1_def guard2_def guard3_def Let_def
             split: if_splits option.splits)
  from Eliminate_items_counts [OF assms(1) e] show ?thesis
    by (simp add: m' age_counters_fields)
qed

lemma Has_counts:
  assumes "counts_ok m" "Has m l key = Return (ok, m')"
  shows "counts_ok m'"
  using assms
  by (auto simp: Has_def Let_def add_def counts_ok_def
           split: option.splits probe_result.splits if_splits)

lemma Get_counts:
  assumes "counts_ok m" "Get c m l key = Return (r, m')"
  shows "counts_ok m'"
  using assms
  by (auto simp: Get_def Let_def add_def counts_ok_def split_beta
           split: option.splits probe_result.splits if_splits)

lemma apply_op_counts:
  assumes "counts_ok m" "apply_op c md5hl p gb m x = Return m'"
  shows "counts_ok m'"
proof (cases x)
  case (OpRePut l key val)
  with assms show ?thesis by (auto simp: after_Return dest: RePut_counts)
next
  case (OpPut l key val)
  with assms show ?thesis by (auto simp: after_Return dest: Put_counts)
next
  case (OpPutMultiValue l key vlen vals)
  with assms show ?thesis by (auto simp: after_Return dest: PutMultiValue_counts)
next
  case (OpDelete l key)
  with assms show ?thesis by (auto simp: after_Return dest: Delete_counts)
next
  case OpEliminate
  with assms show ?thesis by (auto simp: after_Return dest: Eliminate_counts)
next
  case OpRehash
  with assms show ?thesis by (auto dest: rehash_counts)
next
  case OpGCCopy
  with assms show ?thesis by (auto simp: after_Return dest: GCCopy_counts)
next
  case OpClear
  with assms show ?thesis by (auto simp: Clear_counts)
next
  case (OpHas l key)
  with assms show ?thesis by (auto simp: after_Return dest: Has_counts)
next
  case (OpGet l key)
  with assms show ?thesis by (auto simp: after_Return dest: Get_counts)
qed

lemma run_counts:
  "counts_ok m \<Longrightarrow> run c md5hl p gb m xs = Return m' \<Longrightarrow> counts_ok m'"
proof (induction xs arbitrary: m)
  case Nil
  then show ?case by simp
next
  case (Cons x xs)
  from Cons.prems(2) obtain m1 where
    a: "apply_op c md5hl p gb m x = Return m1" and r: "run c md5hl p gb m1 xs = Return m'"
    by (auto split: outcome.splits)
  from Cons.IH [OF apply_op_counts [OF Cons.prems(1) a] r] show ?case .
qed

section \<open>Reading and writing the arena\<close>

subsection \<open>Arithmetic of the packed words\<close>

lemma pack_div: "(x::nat) < N \<Longrightarrow> (x + k * N) div N = k"
  by simp

lemma pack_mod: "(x::nat) < N \<Longrightarrow> (x + k * N) mod N = x"
  by simp

lemma unat_push24:
  "unat (b :: uint32) < 2 ^ 8 \<Longrightarrow> unat (push_bit 24 b) = unat b * 2 ^ 24"
  by (simp add: unsigned_push_bit_eq push_bit_eq_mult take_bit_eq_mod unat_word_ariths)

lemma unat_pack:
  fixes x b :: uint32
  assumes "unat x < 2 ^ 24" "unat b < 2 ^ 8"
  shows "unat (x + push_bit 24 b) = unat x + unat b * 2 ^ 24"
proof -
  have "unat x + unat b * 2 ^ 24 < 2 ^ 32" using assms by simp
  then show ?thesis
    using assms(2) by (simp add: unat_word_ariths unat_push24)
qed

lemma mask24: "(0x00FFFFFF :: uint32) = mask 24"
  by (simp add: mask_eq_exp_minus_1)

lemma unat_offset: "unat (offset i) = unat i mod 2 ^ 24"
  by (simp add: offset_def IdxOffsetMask_def mask24 take_bit_eq_mask [symmetric] unsigned_take_bit_eq take_bit_eq_mod unat_mod)

lemma unat_drop24: "unat (drop_bit 24 (w :: uint32)) = unat w div 2 ^ 24"
  by (simp add: unsigned_drop_bit_eq drop_bit_eq_div unat_div)

text \<open>The low 24 bits and the high 8 bits of a packed word.\<close>

lemma pack_low:
  fixes x b :: uint32
  assumes "unat x < 2 ^ 24" "unat b < 2 ^ 8"
  shows "offset (x + push_bit 24 b) = x"
proof (rule word_unat_eq_iff [THEN iffD2])
  have "unat (offset (x + push_bit 24 b)) = (unat x + unat b * 2 ^ 24) mod 2 ^ 24"
    unfolding unat_offset unat_pack [OF assms] ..
  also have "\<dots> = unat x" using assms(1) by (rule pack_mod)
  finally show "unat (offset (x + push_bit 24 b)) = unat x" .
qed

lemma pack_high:
  fixes x b :: uint32
  assumes "unat x < 2 ^ 24" "unat b < 2 ^ 8"
  shows "drop_bit 24 (x + push_bit 24 b) = b"
proof (rule word_unat_eq_iff [THEN iffD2])
  have "unat (drop_bit 24 (x + push_bit 24 b)) = (unat x + unat b * 2 ^ 24) div 2 ^ 24"
    unfolding unat_drop24 unat_pack [OF assms] ..
  also have "\<dots> = unat b" using assms(1) by (rule pack_div)
  finally show "unat (drop_bit 24 (x + push_bit 24 b)) = unat b" .
qed

subsection \<open>Reads of a prefix\<close>

lemma slice_append:
  "slice d lo hi = Some x \<Longrightarrow> slice (d @ r) lo hi = Some x"
  by (auto simp: slice_def split: if_splits)

lemma LoadUint32_at_append:
  "LoadUint32_at d off = Some x \<Longrightarrow> LoadUint32_at (d @ r) off = Some x"
  by (auto simp: LoadUint32_at_def nth_append split: if_splits)

lemma slice_length: "slice d lo hi = Some x \<Longrightarrow> length x = hi - lo"
  by (auto simp: slice_def split: if_splits)

lemma slice_copy_at:
  assumes "copy_at d off src = Some d'" "off + length src \<le> length d"
  shows "slice d' off (off + length src) = Some src"
  using assms by (auto simp: copy_at_def slice_def split: if_splits)

lemma take_copy_at:
  assumes "copy_at d off src = Some d'" "t \<le> off"
  shows "take t d' = take t d"
  using assms by (auto simp: copy_at_def split: if_splits)

subsection \<open>The four bytes of a word\<close>

lemma bit_rcat4:
  "bit (word_rcat [b3, b2, b1, b0 :: byte] :: uint32) n \<longleftrightarrow>
     n < 32 \<and> bit ([b0, b1, b2, b3] ! (n div 8)) (n mod 8)"
proof -
  have "bit (word_rcat [b3, b2, b1, b0] :: uint32) n \<longleftrightarrow>
        n < 32 \<and> bit (horner_sum uint (2 ^ LENGTH(8)) [b0, b1, b2, b3]) n"
    by (simp add: word_rcat_def bit_word_of_int_iff del: horner_sum_simps)
  also have "\<dots> \<longleftrightarrow> n < 32 \<and> bit ([b0, b1, b2, b3] ! (n div 8)) (n mod 8)"
    unfolding bit_horner_sum_uint_exp_iff by auto
  finally show ?thesis .
qed

lemma bit_byte_of_word:
  "bit (ucast (drop_bit k (v :: uint32)) :: byte) r \<longleftrightarrow> r < 8 \<and> bit v (k + r)"
  by (auto simp: bit_ucast_iff bit_drop_bit_eq dest: bit_imp_le_length)

lemma word_rcat_bytes:
  "word_rcat [ucast (drop_bit 24 v) :: byte, ucast (drop_bit 16 v), ucast (drop_bit 8 v),
              ucast (drop_bit 0 v)] = (v :: uint32)"
proof (rule bit_word_eqI)
  fix n assume "n < LENGTH(32)"
  then have n: "n < 32" by simp
  define k where "k = n div 8"
  define r where "r = n mod 8"
  have r: "r < 8" and nk: "n = 8 * k + r" by (simp_all add: k_def r_def)
  have "k < 4" using n by (simp add: k_def)
  then consider "k = 0" | "k = 1" | "k = 2" | "k = 3" by linarith
  then have "bit ([ucast (drop_bit 0 v) :: byte, ucast (drop_bit 8 v), ucast (drop_bit 16 v),
                   ucast (drop_bit 24 v)] ! k) r = bit v n"
    by cases (simp_all only: nth_Cons_0 nth_Cons_Suc One_nat_def numeral_2_eq_2 numeral_3_eq_3
                bit_byte_of_word r nk simp_thms mult_0_right mult_Suc_right add_0_right add.left_neutral,
              simp_all add: add.commute)
  then show "bit (word_rcat [ucast (drop_bit 24 v) :: byte, ucast (drop_bit 16 v),
                             ucast (drop_bit 8 v), ucast (drop_bit 0 v)] :: uint32) n = bit v n"
    unfolding bit_rcat4 using n by (simp only: k_def r_def simp_thms)
qed

lemma and_small_mask: "drop_bit 24 ((w :: uint32) AND IdxSmallSizeMask) = drop_bit 24 w"
proof (rule bit_word_eqI)
  fix n assume "n < LENGTH(32)"
  have m: "IdxSmallSizeMask = NOT (mask 24)"
    by (simp add: IdxSmallSizeMask_def mask_eq_exp_minus_1)
  show "bit (drop_bit 24 (w AND IdxSmallSizeMask)) n = bit (drop_bit 24 w) n"
    unfolding m by (auto simp: bit_simps dest: bit_imp_le_length)
qed

lemma unat_offset4: "unat (offset i * 4) = unat (offset i) * 4"
proof -
  have "unat (offset i) < 2 ^ 24" by (simp add: unat_offset)
  then show ?thesis by (simp add: unat_word_ariths)
qed

lemma unat_offset4_16: "unat (offset i * 4 + 16) = unat (offset i * 4) + 16"
proof -
  have "unat (offset i) < 2 ^ 24" by (simp add: unat_offset)
  then show ?thesis by (simp add: unat_word_ariths unat_offset4)
qed

lemma offset_less: "unat (offset i) < 2 ^ 24"
  by (simp add: unat_offset)

lemma small_size_less: "unat (drop_bit 24 ((h :: uint32) AND IdxSmallSizeMask)) < 2 ^ 8"
proof -
  have "unat h < 2 ^ 32" using unsigned_less [of h] by simp
  then show ?thesis unfolding and_small_mask unat_drop24 by simp
qed

text \<open>\<open>Get\<close> tests the key as the other operations do, apart from the descriptor 0.\<close>

lemma Get_key_equal_eq:
  "Get_key_equal kv key i = (if i = 0 then Some False else key_equal kv key i)"
  by (simp add: Get_key_equal_def key_equal_def getKey_def unat_offset4_16)

text \<open>\<open>Get\<close> decodes the value as \<open>getKVUnlock\<close> does.\<close>

lemma Get_value_eq:
  "Get_value c m g s = map_option snd (getKVUnlock c (kvHolder m) (groups m ! g ! s))"
proof -
  define idx where "idx = groups m ! g ! s"
  define d where "d = data (kvHolder m)"
  show ?thesis
  proof (cases "LoadUint32_at d (unat (offset idx * 4 + 16))")
    case None
    then show ?thesis
      by (cases "getKey (kvHolder m) idx")
         (simp_all add: Get_value_def getKVUnlock_def Let_def idx_def [symmetric] d_def [symmetric])
  next
    case (Some h)
    define vo where "vo = (h AND IdxOffsetMask) * 4"
    define vs where "vs = drop_bit 24 (h AND IdxSmallSizeMask)"
    have "\<exists>k. getKey (kvHolder m) idx = Some k"
      using Some
      by (auto simp: getKey_def slice_def LoadUint32_at_def d_def unat_offset4_16 split: if_splits)
    then obtain k where k: "getKey (kvHolder m) idx = Some k" by blast
    have a: "unat vo = unat (offset h) * 4"
      using unat_offset4 [of h] by (simp add: offset_def vo_def)
    have "unat (offset h) * 4 + unat vs < 2 ^ 32"
      using offset_less [of h] small_size_less [of h] by (simp add: vs_def)
    then have nowrap: "unat (vo + vs) = unat vo + unat vs"
      using a by (simp add: unat_word_ariths)
    have G: "Get_value c m g s =
        (if valType idx = 0 then slice d (unat vo) (unat (vo + vs))
         else if vs + push_bit 8 (capOrBigSize idx) = overLongSize c
              then do { n \<leftarrow> LoadUint32_at d (unat vo); getValue (kvHolder m) (vo + 4) n }
              else getValue (kvHolder m) vo (vs + push_bit 8 (capOrBigSize idx)))"
      unfolding Get_value_def Let_def idx_def [symmetric] d_def [symmetric]
      by (simp only: Some bind.bind_lunit vo_def vs_def)
    have U: "getKVUnlock c (kvHolder m) idx =
        (if valType idx = 0 then do { v \<leftarrow> getValue (kvHolder m) vo vs; Some (k, v) }
         else if vs + push_bit 8 (capOrBigSize idx) = overLongSize c
              then do { n \<leftarrow> LoadUint32_at d (unat vo);
                        v \<leftarrow> getValue (kvHolder m) (vo + 4) n; Some (k, v) }
              else do { v \<leftarrow> getValue (kvHolder m) vo (vs + push_bit 8 (capOrBigSize idx));
                        Some (k, v) })"
      unfolding getKVUnlock_def Let_def d_def [symmetric]
      by (simp only: Some k bind.bind_lunit vo_def vs_def)
    have gv: "getValue (kvHolder m) vo vs = slice d (unat vo) (unat (vo + vs))"
      by (simp add: getValue_def nowrap d_def)
    show ?thesis
      unfolding G U idx_def [symmetric] gv
      by (auto split: bind_splits)
  qed
qed

subsection \<open>A read after a write\<close>

lemma slice_cong:
  assumes "length d' = length d"
    and "\<And>i. lo \<le> i \<Longrightarrow> i < hi \<Longrightarrow> i < length d \<Longrightarrow> d' ! i = d ! i"
  shows "slice d' lo hi = slice d lo hi"
proof (cases "lo \<le> hi \<and> hi \<le> length d")
  case True
  have "take (hi - lo) (drop lo d') = take (hi - lo) (drop lo d)"
    using True assms by (intro nth_equalityI) auto
  then show ?thesis using assms(1) by (simp add: slice_def)
next
  case False
  then show ?thesis using assms(1) by (auto simp: slice_def)
qed

lemma LoadUint32_at_cong:
  assumes "length d' = length d"
    and "\<And>i. off \<le> i \<Longrightarrow> i < off + 4 \<Longrightarrow> i < length d \<Longrightarrow> d' ! i = d ! i"
  shows "LoadUint32_at d' off = LoadUint32_at d off"
  using assms by (auto simp: LoadUint32_at_def)

lemma slice_after_copy:
  assumes "copy_at d off src = Some d'" "hi \<le> off \<or> off + length src \<le> lo"
  shows "slice d' lo hi = slice d lo hi"
  using assms(2)
  by (intro slice_cong length_copy_at [OF assms(1)] nth_copy_at_outside [OF assms(1)]) auto

lemma slice_after_Store:
  assumes "StoreUint32_at d off v = Some d'" "hi \<le> off \<or> off + 4 \<le> lo"
  shows "slice d' lo hi = slice d lo hi"
  using assms(2)
  by (intro slice_cong length_StoreUint32_at [OF assms(1)] nth_StoreUint32_at_outside [OF assms(1)]) auto

lemma Load_after_copy:
  assumes "copy_at d off src = Some d'" "a + 4 \<le> off \<or> off + length src \<le> a"
  shows "LoadUint32_at d' a = LoadUint32_at d a"
  using assms(2)
  by (intro LoadUint32_at_cong length_copy_at [OF assms(1)] nth_copy_at_outside [OF assms(1)]) auto

lemma Load_after_Store:
  assumes "StoreUint32_at d off v = Some d'" "a + 4 \<le> off \<or> off + 4 \<le> a"
  shows "LoadUint32_at d' a = LoadUint32_at d a"
  using assms(2)
  by (intro LoadUint32_at_cong length_StoreUint32_at [OF assms(1)] nth_StoreUint32_at_outside [OF assms(1)]) auto

lemma Load_Store:
  assumes "StoreUint32_at d off v = Some d'"
  shows "LoadUint32_at d' off = Some v"
proof -
  have off: "off + 4 \<le> length d" and c: "copy_at d off (uint32_bytes v) = Some d'"
    using assms by (auto simp: StoreUint32_at_def split: if_splits)
  have d': "d' = take off d @ uint32_bytes v @ drop (Suc (Suc (Suc (Suc off)))) d"
    using c off by (auto simp: copy_at_def uint32_bytes_def)
  have n: "d' ! off = ucast v" "d' ! (off + 1) = ucast (drop_bit 8 v)"
    "d' ! (off + 2) = ucast (drop_bit 16 v)" "d' ! (off + 3) = ucast (drop_bit 24 v)"
    using off by (simp_all add: d' nth_append uint32_bytes_def nth_Cons')
  have l: "length d' = length d" using c by (rule length_copy_at)
  have "LoadUint32_at d' off =
        Some (word_rcat [ucast (drop_bit 24 v) :: byte, ucast (drop_bit 16 v),
                         ucast (drop_bit 8 v), ucast v])"
    unfolding LoadUint32_at_def n using off l by simp
  also have "\<dots> = Some v"
    using word_rcat_bytes [of v] by simp
  finally show ?thesis .
qed

lemma slice_take:
  "slice d lo hi = Some x \<Longrightarrow> hi \<le> n \<Longrightarrow> slice (take n d) lo hi = Some x"
  by (auto simp: slice_def take_drop split: if_splits)

lemma LoadUint32_at_take:
  "LoadUint32_at d off = Some x \<Longrightarrow> off + 4 \<le> n \<Longrightarrow> LoadUint32_at (take n d) off = Some x"
  by (auto simp: LoadUint32_at_def split: if_splits)

subsection \<open>The arena and the constants\<close>

text \<open>
  The arena is a buffer of \<open>cap\<close> bytes, below \<open>2^26\<close> so that every offset divided by 4
  fits the 24 bits of a descriptor, and \<open>tail\<close> is a multiple of 4 inside it.
\<close>

definition arena_ok :: "kvHolder \<Rightarrow> bool" where
  "arena_ok kv \<longleftrightarrow>
     length (data kv) = unat (cap kv) \<and> unat (cap kv) < 2 ^ 26 \<and>
     4 dvd unat (tail kv) \<and> 4 \<le> unat (tail kv) \<and> unat (tail kv) \<le> unat (cap kv)"

text \<open>
  What the layouts need of the constants: values shorter than \<open>overShortSize\<close> have their
  size in 8 bits; the two headers of the long layout lie in the size fields (bits 24 to 30 of
  the descriptor, bits 24 to 31 of Word B), and the size that they encode is the sentinel
  \<open>overLongSize\<close>.
\<close>

definition consts_ok :: "vconsts \<Rightarrow> bool" where
  "consts_ok c \<longleftrightarrow>
     (let hH = drop_bit 24 (overLongStoreHeaderH c);
          hL = drop_bit 24 (overLongStoreHeaderL c)
      in unat (overShortSize c) \<le> 256 \<and> overShortSize c \<le> overLongSize c \<and>
         overLongStoreHeaderH c = push_bit 24 hH \<and> unat hH < 128 \<and>
         overLongStoreHeaderL c = push_bit 24 hL \<and>
         hL + push_bit 8 hH = overLongSize c)"

lemma tail_div4:
  fixes t :: uint32
  assumes "4 dvd unat t" "unat t < 2 ^ 26"
  shows "unat (t div 4) < 2 ^ 24" "t div 4 * 4 = t" "unat (t div 4) = unat t div 4"
proof -
  show u: "unat (t div 4) = unat t div 4" by (simp add: unat_div)
  show "unat (t div 4) < 2 ^ 24" using assms(2) by (simp add: u)
  have "unat (t div 4 * 4) = unat t"
    using assms by (simp add: unat_word_ariths u)
  then show "t div 4 * 4 = t" by (rule word_unat_eq_iff [THEN iffD2])
qed

lemma type_header: "push_bit 24 (b :: uint32) + mapTypeHeader = push_bit 24 (b + 128)"
  by (simp add: mapTypeHeader_def push_bit_eq_mult algebra_simps)

lemma mask7: "(0x7F :: uint32) = mask 7"
  by (simp add: mask_eq_exp_minus_1)

lemma unat_and7F: "unat ((w :: uint32) AND 0x7F) = unat w mod 128"
  by (simp add: mask7 take_bit_eq_mask [symmetric] unsigned_take_bit_eq take_bit_eq_mod unat_mod)

lemma unat_drop7: "unat (drop_bit 7 (w :: uint32)) = unat w div 128"
  by (simp add: unsigned_drop_bit_eq drop_bit_eq_div unat_div)

lemma valType_drop: "valType i = drop_bit 7 (drop_bit 24 i)"
  by (simp add: valType_def)

text \<open>Decoding a descriptor \<open>x + cap << 24\<close> of type 0.\<close>

lemma idx_type0:
  fixes x b :: uint32
  assumes "unat x < 2 ^ 24" "unat b < 128"
  shows "offset (x + push_bit 24 b) = x" "capOrBigSize (x + push_bit 24 b) = b"
    "valType (x + push_bit 24 b) = 0"
proof -
  have b: "unat b < 2 ^ 8" using assms(2) by simp
  show "offset (x + push_bit 24 b) = x" using assms(1) b by (rule pack_low)
  have h: "drop_bit 24 (x + push_bit 24 b) = b" using assms(1) b by (rule pack_high)
  show "capOrBigSize (x + push_bit 24 b) = b"
    unfolding capOrBigSize_def h
    by (rule word_unat_eq_iff [THEN iffD2]) (use assms(2) in \<open>simp add: unat_and7F\<close>)
  show "valType (x + push_bit 24 b) = 0"
    unfolding valType_drop h
    by (rule word_unat_eq_iff [THEN iffD2]) (use assms(2) in \<open>simp add: unat_drop7\<close>)
qed

text \<open>Decoding a descriptor \<open>x + big << 24 + mapTypeHeader\<close> of type 1.\<close>

lemma idx_type1:
  fixes x b :: uint32
  assumes "unat x < 2 ^ 24" "unat b < 128"
  shows "offset (x + push_bit 24 b + mapTypeHeader) = x"
    "capOrBigSize (x + push_bit 24 b + mapTypeHeader) = b"
    "valType (x + push_bit 24 b + mapTypeHeader) = 1"
proof -
  have e: "x + push_bit 24 b + mapTypeHeader = x + push_bit 24 (b + 128)"
    using type_header [of b] by (simp add: add.assoc)
  have u: "unat (b + 128) = unat b + 128" using assms(2) by (simp add: unat_word_ariths)
  have b: "unat (b + 128) < 2 ^ 8" using assms(2) u by simp
  show "offset (x + push_bit 24 b + mapTypeHeader) = x"
    unfolding e using assms(1) b by (rule pack_low)
  have h: "drop_bit 24 (x + push_bit 24 (b + 128)) = b + 128" using assms(1) b by (rule pack_high)
  show "capOrBigSize (x + push_bit 24 b + mapTypeHeader) = b"
    unfolding e capOrBigSize_def h
    by (rule word_unat_eq_iff [THEN iffD2]) (use assms(2) u in \<open>simp add: unat_and7F\<close>)
  show "valType (x + push_bit 24 b + mapTypeHeader) = 1"
    unfolding e valType_drop h
    by (rule word_unat_eq_iff [THEN iffD2]) (use assms(2) u in \<open>simp add: unat_drop7\<close>)
qed

text \<open>Decoding Word B \<open>y + size << 24\<close>.\<close>

lemma hdr_decode:
  fixes y sz :: uint32
  assumes "unat y < 2 ^ 24" "unat sz < 2 ^ 8"
  shows "(y + push_bit 24 sz) AND IdxOffsetMask = y"
    "drop_bit 24 ((y + push_bit 24 sz) AND IdxSmallSizeMask) = sz"
proof -
  show "(y + push_bit 24 sz) AND IdxOffsetMask = y"
    using pack_low [OF assms] by (simp add: offset_def)
  show "drop_bit 24 ((y + push_bit 24 sz) AND IdxSmallSizeMask) = sz"
    unfolding and_small_mask using assms by (rule pack_high)
qed

lemma unat_Cap4Size:
  "unat (n :: uint32) < 2 ^ 31 \<Longrightarrow> unat (Cap4Size n) = (unat n + 3) div 4 * 4"
  by (simp add: Cap4Size_def unat_word_ariths unat_div)

lemma take_Store:
  assumes "StoreUint32_at d off v = Some d'" "t \<le> off"
  shows "take t d' = take t d"
  using assms by (auto simp: StoreUint32_at_def take_copy_at split: if_splits)

subsection \<open>Reading a record\<close>

lemma getKVUnlock_type0:
  assumes "unat (offset idx * 4) = t" "slice (data kv) t (t + 16) = Some key"
    "LoadUint32_at (data kv) (t + 16) = Some h" "valType idx = 0"
    "slice (data kv) (unat ((h AND IdxOffsetMask) * 4))
       (unat ((h AND IdxOffsetMask) * 4) + unat (drop_bit 24 (h AND IdxSmallSizeMask))) = Some val"
  shows "getKVUnlock c kv idx = Some (key, val)"
  unfolding getKVUnlock_def getKey_def getValue_def Let_def unat_offset4_16
  using assms by simp

lemma getKVUnlock_medium:
  assumes "unat (offset idx * 4) = t" "slice (data kv) t (t + 16) = Some key"
    "LoadUint32_at (data kv) (t + 16) = Some h" "valType idx \<noteq> 0"
    "drop_bit 24 (h AND IdxSmallSizeMask) + push_bit 8 (capOrBigSize idx) = n"
    "n \<noteq> overLongSize c"
    "slice (data kv) (unat ((h AND IdxOffsetMask) * 4))
       (unat ((h AND IdxOffsetMask) * 4) + unat n) = Some val"
  shows "getKVUnlock c kv idx = Some (key, val)"
  unfolding getKVUnlock_def getKey_def getValue_def Let_def unat_offset4_16
  using assms by simp

lemma getKVUnlock_long:
  assumes "unat (offset idx * 4) = t" "slice (data kv) t (t + 16) = Some key"
    "LoadUint32_at (data kv) (t + 16) = Some h" "valType idx \<noteq> 0"
    "drop_bit 24 (h AND IdxSmallSizeMask) + push_bit 8 (capOrBigSize idx) = overLongSize c"
    "LoadUint32_at (data kv) (unat ((h AND IdxOffsetMask) * 4)) = Some n"
    "slice (data kv) (unat ((h AND IdxOffsetMask) * 4 + 4))
       (unat ((h AND IdxOffsetMask) * 4 + 4) + unat n) = Some val"
  shows "getKVUnlock c kv idx = Some (key, val)"
  unfolding getKVUnlock_def getKey_def getValue_def Let_def unat_offset4_16
  using assms by simp

lemma getKVUnlock_lengths:
  assumes "getKVUnlock c kv idx = Some (k, v)"
  shows "length k = 16" "length v \<le> length (data kv)"
proof -
  from assms obtain lo hi where k: "slice (data kv) lo (lo + 16) = Some k"
    and v: "slice (data kv) lo hi = Some v \<or> (\<exists>lo'. slice (data kv) lo' hi = Some v)"
    by (auto simp: getKVUnlock_def getKey_def getValue_def Let_def split: bind_splits if_splits)
  show "length k = 16" using slice_length [OF k] by simp
  from v obtain lo' where "slice (data kv) lo' hi = Some v" by blast
  then show "length v \<le> length (data kv)"
    by (auto simp: slice_def split: if_splits)
qed

text \<open>A record that can be read in a prefix of the arena reads the same in the arena.\<close>

lemma getKVUnlock_append:
  assumes "getKVUnlock c kv idx = Some r" "data kv' = data kv @ rest"
  shows "getKVUnlock c kv' idx = Some r"
proof -
  note a = slice_append [where r = rest] LoadUint32_at_append [where r = rest]
  show ?thesis
    using assms(1) unfolding getKVUnlock_def getKey_def getValue_def Let_def assms(2)
    by (auto split: bind_splits if_splits simp: a)
qed

lemma overLong_bound:
  assumes "consts_ok c"
  shows "unat (overLongSize c) < 2 ^ 15"
proof -
  define hH where "hH = drop_bit 24 (overLongStoreHeaderH c)"
  define hL where "hL = drop_bit 24 (overLongStoreHeaderL c)"
  have e: "overLongSize c = hL + push_bit 8 hH" and hH: "unat hH < 128"
    using assms by (simp_all add: consts_ok_def Let_def hH_def hL_def)
  have hL: "unat hL < 256"
    using unsigned_less [of "overLongStoreHeaderL c", where 'a = nat]
    by (simp add: hL_def unat_drop24)
  have p: "unat (push_bit 8 hH) = unat hH * 256"
    using hH by (simp add: unsigned_push_bit_eq push_bit_eq_mult take_bit_eq_mod unat_word_ariths)
  have "unat (hL + push_bit 8 hH) = unat hL + unat hH * 256"
    using hH hL by (simp add: unat_word_ariths p)
  then show ?thesis using hH hL by (simp add: e)
qed

lemma split_size:
  fixes lv :: uint32
  assumes "unat lv < 2 ^ 15"
  shows "(lv AND 0xff) + push_bit 8 (drop_bit 8 lv) = lv" "unat (drop_bit 8 lv) < 128"
    "unat (lv AND 0xff) < 2 ^ 8"
proof -
  have m: "(0xff :: uint32) = mask 8" by (simp add: mask_eq_exp_minus_1)
  have a: "unat (lv AND 0xff) = unat lv mod 256"
    unfolding m by (simp add: take_bit_eq_mask [symmetric] unsigned_take_bit_eq take_bit_eq_mod unat_mod)
  have d: "unat (drop_bit 8 lv) = unat lv div 256"
    by (simp add: unsigned_drop_bit_eq drop_bit_eq_div unat_div)
  show d128: "unat (drop_bit 8 lv) < 128" using assms by (simp add: d)
  show "unat (lv AND 0xff) < 2 ^ 8" by (simp add: a)
  have p: "unat (push_bit 8 (drop_bit 8 lv)) = unat lv div 256 * 256"
    using d128 d by (simp add: unsigned_push_bit_eq push_bit_eq_mult take_bit_eq_mod unat_word_ariths)
  have "unat ((lv AND 0xff) + push_bit 8 (drop_bit 8 lv)) = unat lv"
    using assms by (simp add: unat_word_ariths a p)
  then show "(lv AND 0xff) + push_bit 8 (drop_bit 8 lv) = lv"
    by (rule word_unat_eq_iff [THEN iffD2])
qed

subsection \<open>Appending a record\<close>

lemma unat_plus_small:
  fixes t :: uint32
  assumes "unat t < 2 ^ 26" "n < 2 ^ 31"
  shows "unat (t + of_nat n) = unat t + n"
proof -
  have "unat (of_nat n :: uint32) = n" using assms(2) by (simp add: unat_of_nat)
  then show ?thesis using assms by (simp add: unat_word_ariths)
qed

text \<open>The short layout: a value below \<open>overShortSize\<close>.\<close>

lemma append_record_short:
  fixes kv :: kvHolder and val :: "byte list"
  defines "t \<equiv> unat (tail kv)"
  defines "lv \<equiv> (of_nat (length val) :: uint32)"
  assumes ok: "arena_ok kv" and co: "consts_ok c"
    and lk: "length key = 16" and lvl: "length val < 2 ^ 31"
    and br: "\<not> lv \<ge> overLongSize c" "\<not> lv \<ge> overShortSize c"
    and ap: "append_record c kv key val = Some (Some (idx, kv1))"
  shows "unat (tail kv1) = t + 20 + (length val + 3) div 4 * 4"
    and "unat (tail kv1) \<le> unat (cap kv)"
    and "cap kv1 = cap kv" and "length (data kv1) = length (data kv)"
    and "take t (data kv1) = take t (data kv)"
    and "offset idx * 4 = tail kv"
    and "getKVUnlock c (kv1\<lparr>data := take (unat (tail kv1)) (data kv1)\<rparr>) idx = Some (key, val)"
    and "valType idx = 0"
    and "unat (capOrBigSize idx * 4) = (length val + 3) div 4 * 4"
    and "\<exists>h. LoadUint32_at (data kv1) (t + 16) = Some h \<and> unat ((h AND IdxOffsetMask) * 4) = t + 20"
proof -
  define L where "L = length (data kv)"
  define c4 where "c4 = (length val + 3) div 4 * 4"
  have L: "L = unat (cap kv)" "L < 2 ^ 26" and t4: "4 dvd t" "4 \<le> t" "t \<le> L"
    using ok by (simp_all add: arena_ok_def L_def t_def)
  have t26: "unat (tail kv) < 2 ^ 26" using t4 L by (simp add: t_def)
  have ulv: "unat lv = length val" using lvl by (simp add: lv_def unat_of_nat)
  have sh: "length val < 256"
    using br(2) co ulv by (simp add: consts_ok_def Let_def word_le_nat_alt)
  have uc4: "unat (Cap4Size lv) = c4" using unat_Cap4Size [of lv] ulv lvl by (simp add: c4_def)
  have c4b: "length val \<le> c4" "c4 \<le> 256" "4 dvd c4" using sh by (simp_all add: c4_def)
  define ntail where "ntail = tail kv + 20 + Cap4Size lv"
  have unt: "unat ntail = t + 20 + c4"
    using t26 c4b uc4 by (simp add: ntail_def unat_word_ariths t_def)
  have u16: "unat (tail kv + 16) = t + 16" and u20: "unat (tail kv + 16 + 4) = t + 20"
    using t26 by (simp_all add: unat_word_ariths t_def)
  have ap': "append_record c kv key val =
     (if ntail > cap kv then Some None
      else do {
        d1 \<leftarrow> copy_at (data kv) t key;
        d2 \<leftarrow> copy_at d1 (t + 20) val;
        d3 \<leftarrow> StoreUint32_at d2 (t + 16) ((tail kv + 16 + 4) div 4 + push_bit 24 lv);
        Some (Some (tail kv div 4 + push_bit 24 (Cap4Size lv div 4),
                    kv\<lparr>data := d3, items := items kv + 1,
                       valUsed := valUsed kv + Cap4Size lv, tail := ntail\<rparr>))
      })"
    unfolding append_record_def Let_def lv_def [symmetric] ntail_def [symmetric]
      u16 u20 t_def [symmetric]
    using br by simp
  from ap have fit: "\<not> ntail > cap kv" unfolding ap' by (auto split: if_splits)
  then have fitn: "t + 20 + c4 \<le> L" using unt L by (simp add: word_less_nat_alt not_less)
  from ap fit obtain d1 d2 d3 where d1: "copy_at (data kv) t key = Some d1"
    and d2: "copy_at d1 (t + 20) val = Some d2"
    and d3: "StoreUint32_at d2 (t + 16) ((tail kv + 16 + 4) div 4 + push_bit 24 lv) = Some d3"
    and idx: "idx = tail kv div 4 + push_bit 24 (Cap4Size lv div 4)"
    and kv1: "kv1 = kv\<lparr>data := d3, items := items kv + 1,
                       valUsed := valUsed kv + Cap4Size lv, tail := ntail\<rparr>"
    unfolding ap' by (auto split: if_splits bind_splits)
  have l1: "length d1 = L" using d1 by (simp add: length_copy_at L_def)
  have l2: "length d2 = L" using d2 l1 by (simp add: length_copy_at)
  have l3: "length d3 = L" using d3 l2 by (simp add: length_StoreUint32_at)
  show "unat (tail kv1) = t + 20 + (length val + 3) div 4 * 4"
    by (simp add: kv1 unt c4_def)
  show "unat (tail kv1) \<le> unat (cap kv)" using fitn L by (simp add: kv1 unt)
  show "cap kv1 = cap kv" by (simp add: kv1)
  show "length (data kv1) = length (data kv)" using l3 by (simp add: kv1 L_def)
  have "take t d3 = take t d2" using d3 by (rule take_Store) simp
  also have "\<dots> = take t d1" using d2 by (rule take_copy_at) simp
  also have "\<dots> = take t (data kv)" using d1 by (rule take_copy_at) simp
  finally show "take t (data kv1) = take t (data kv)" by (simp add: kv1)
  \<comment> \<open>the three reads in the final buffer\<close>
  have rk: "slice d3 t (t + 16) = Some key"
  proof -
    have "slice d3 t (t + 16) = slice d2 t (t + 16)" using d3 by (rule slice_after_Store) simp
    also have "\<dots> = slice d1 t (t + 16)" using d2 by (rule slice_after_copy) simp
    also have "\<dots> = Some key" using slice_copy_at [OF d1] lk fitn by (simp add: L_def)
    finally show ?thesis .
  qed
  have rh: "LoadUint32_at d3 (t + 16) = Some ((tail kv + 16 + 4) div 4 + push_bit 24 lv)"
    using d3 by (rule Load_Store)
  have rv: "slice d3 (t + 20) (t + 20 + length val) = Some val"
  proof -
    have "slice d3 (t + 20) (t + 20 + length val) = slice d2 (t + 20) (t + 20 + length val)"
      using d3 by (rule slice_after_Store) simp
    also have "\<dots> = Some val" using slice_copy_at [OF d2] l1 fitn c4b by simp
    finally show ?thesis .
  qed
  \<comment> \<open>decoding\<close>
  have x: "unat (tail kv div 4) < 2 ^ 24" "tail kv div 4 * 4 = tail kv"
    using tail_div4 [of "tail kv"] t4 t26 by (simp_all add: t_def)
  have b: "unat (Cap4Size lv div 4) = c4 div 4" by (simp add: unat_div uc4)
  then have b128: "unat (Cap4Size lv div 4) < 128" using c4b by simp
  note dec = idx_type0 [OF x(1) b128]
  show off: "offset idx * 4 = tail kv" by (simp add: idx dec x)
  show vt: "valType idx = 0" by (simp add: idx dec)
  have "unat (Cap4Size lv div 4 * 4) = c4"
    using b c4b by (simp add: unat_word_ariths)
  then show "unat (capOrBigSize idx * 4) = (length val + 3) div 4 * 4"
    by (simp add: idx dec c4_def)
  have y: "unat ((tail kv + 16 + 4) div 4) < 2 ^ 24" "(tail kv + 16 + 4) div 4 * 4 = tail kv + 16 + 4"
    using tail_div4 [of "tail kv + 16 + 4"] t4 fitn L u20 by simp_all
  have sz: "unat lv < 2 ^ 8" using sh ulv by simp
  note hd = hdr_decode [OF y(1) sz]
  have vo: "unat ((((tail kv + 16 + 4) div 4 + push_bit 24 lv) AND IdxOffsetMask) * 4) = t + 20"
    by (simp only: hd y u20)
  show "\<exists>h. LoadUint32_at (data kv1) (t + 16) = Some h \<and> unat ((h AND IdxOffsetMask) * 4) = t + 20"
    using rh vo by (simp add: kv1)
  define dd where "dd = take (unat ntail) d3"
  have "getKVUnlock c (kv1\<lparr>data := dd\<rparr>) idx = Some (key, val)"
  proof (rule getKVUnlock_type0 [where t = t and h = "(tail kv + 16 + 4) div 4 + push_bit 24 lv"])
    show "unat (offset idx * 4) = t" by (simp add: off t_def)
    show "slice (data (kv1\<lparr>data := dd\<rparr>)) t (t + 16) = Some key"
      using slice_take [OF rk, of "unat ntail"] unt by (simp add: dd_def)
    show "LoadUint32_at (data (kv1\<lparr>data := dd\<rparr>)) (t + 16) =
          Some ((tail kv + 16 + 4) div 4 + push_bit 24 lv)"
      using LoadUint32_at_take [OF rh, of "unat ntail"] unt by (simp add: dd_def)
    show "valType idx = 0" by (rule vt)
    show "slice (data (kv1\<lparr>data := dd\<rparr>))
       (unat ((((tail kv + 16 + 4) div 4 + push_bit 24 lv) AND IdxOffsetMask) * 4))
       (unat ((((tail kv + 16 + 4) div 4 + push_bit 24 lv) AND IdxOffsetMask) * 4) +
        unat (drop_bit 24 (((tail kv + 16 + 4) div 4 + push_bit 24 lv) AND IdxSmallSizeMask))) =
       Some val"
      unfolding vo hd(2) ulv
      using slice_take [OF rv, of "unat ntail"] unt c4b by (simp add: dd_def)
  qed
  then show "getKVUnlock c (kv1\<lparr>data := take (unat (tail kv1)) (data kv1)\<rparr>) idx = Some (key, val)"
    by (simp add: dd_def kv1)
qed

text \<open>The medium layout: a value from \<open>overShortSize\<close> up to \<open>overLongSize\<close>.\<close>

lemma append_record_medium:
  fixes kv :: kvHolder and val :: "byte list"
  defines "t \<equiv> unat (tail kv)"
  defines "lv \<equiv> (of_nat (length val) :: uint32)"
  assumes ok: "arena_ok kv" and co: "consts_ok c"
    and lk: "length key = 16" and lvl: "length val < 2 ^ 31"
    and br: "\<not> lv \<ge> overLongSize c" "lv \<ge> overShortSize c"
    and ap: "append_record c kv key val = Some (Some (idx, kv1))"
  shows "unat (tail kv1) = t + 20 + (length val + 3) div 4 * 4"
    and "unat (tail kv1) \<le> unat (cap kv)"
    and "cap kv1 = cap kv" and "length (data kv1) = length (data kv)"
    and "take t (data kv1) = take t (data kv)"
    and "offset idx * 4 = tail kv"
    and "getKVUnlock c (kv1\<lparr>data := take (unat (tail kv1)) (data kv1)\<rparr>) idx = Some (key, val)"
    and "valType idx = 1"
proof -
  define L where "L = length (data kv)"
  define c4 where "c4 = (length val + 3) div 4 * 4"
  have L: "L = unat (cap kv)" "L < 2 ^ 26" and t4: "4 dvd t" "4 \<le> t" "t \<le> L"
    using ok by (simp_all add: arena_ok_def L_def t_def)
  have t26: "unat (tail kv) < 2 ^ 26" using t4 L by (simp add: t_def)
  have ulv: "unat lv = length val" using lvl by (simp add: lv_def unat_of_nat)
  have sh: "length val < 2 ^ 15"
    using br(1) overLong_bound [OF co] ulv by (simp add: word_le_nat_alt)
  have ne: "lv \<noteq> overLongSize c" using br(1) by auto
  have uc4: "unat (Cap4Size lv) = c4" using unat_Cap4Size [of lv] ulv lvl by (simp add: c4_def)
  have c4b: "length val \<le> c4" "c4 \<le> 2 ^ 15" "4 dvd c4" using sh by (simp_all add: c4_def)
  define ntail where "ntail = tail kv + 20 + Cap4Size lv"
  have unt: "unat ntail = t + 20 + c4"
    using t26 c4b uc4 by (simp add: ntail_def unat_word_ariths t_def)
  have u16: "unat (tail kv + 16) = t + 16" and u20: "unat (tail kv + 16 + 4) = t + 20"
    using t26 by (simp_all add: unat_word_ariths t_def)
  have ap': "append_record c kv key val =
     (if ntail > cap kv then Some None
      else do {
        d1 \<leftarrow> copy_at (data kv) t key;
        d2 \<leftarrow> copy_at d1 (t + 20) val;
        d3 \<leftarrow> StoreUint32_at d2 (t + 16) ((tail kv + 16 + 4) div 4 + push_bit 24 (lv AND 0xff));
        Some (Some (tail kv div 4 + push_bit 24 (drop_bit 8 lv) + mapTypeHeader,
                    kv\<lparr>data := d3, items := items kv + 1,
                       valUsed := valUsed kv + Cap4Size lv, tail := ntail\<rparr>))
      })"
    unfolding append_record_def Let_def lv_def [symmetric] ntail_def [symmetric]
      u16 u20 t_def [symmetric]
    using br by simp
  from ap have fit: "\<not> ntail > cap kv" unfolding ap' by (auto split: if_splits)
  then have fitn: "t + 20 + c4 \<le> L" using unt L by (simp add: word_less_nat_alt not_less)
  from ap fit obtain d1 d2 d3 where d1: "copy_at (data kv) t key = Some d1"
    and d2: "copy_at d1 (t + 20) val = Some d2"
    and d3: "StoreUint32_at d2 (t + 16) ((tail kv + 16 + 4) div 4 + push_bit 24 (lv AND 0xff)) = Some d3"
    and idx: "idx = tail kv div 4 + push_bit 24 (drop_bit 8 lv) + mapTypeHeader"
    and kv1: "kv1 = kv\<lparr>data := d3, items := items kv + 1,
                       valUsed := valUsed kv + Cap4Size lv, tail := ntail\<rparr>"
    unfolding ap' by (auto split: if_splits bind_splits)
  have l1: "length d1 = L" using d1 by (simp add: length_copy_at L_def)
  have l2: "length d2 = L" using d2 l1 by (simp add: length_copy_at)
  have l3: "length d3 = L" using d3 l2 by (simp add: length_StoreUint32_at)
  show "unat (tail kv1) = t + 20 + (length val + 3) div 4 * 4"
    by (simp add: kv1 unt c4_def)
  show "unat (tail kv1) \<le> unat (cap kv)" using fitn L by (simp add: kv1 unt)
  show "cap kv1 = cap kv" by (simp add: kv1)
  show "length (data kv1) = length (data kv)" using l3 by (simp add: kv1 L_def)
  have "take t d3 = take t d2" using d3 by (rule take_Store) simp
  also have "\<dots> = take t d1" using d2 by (rule take_copy_at) simp
  also have "\<dots> = take t (data kv)" using d1 by (rule take_copy_at) simp
  finally show "take t (data kv1) = take t (data kv)" by (simp add: kv1)
  have rk: "slice d3 t (t + 16) = Some key"
  proof -
    have "slice d3 t (t + 16) = slice d2 t (t + 16)" using d3 by (rule slice_after_Store) simp
    also have "\<dots> = slice d1 t (t + 16)" using d2 by (rule slice_after_copy) simp
    also have "\<dots> = Some key" using slice_copy_at [OF d1] lk fitn by (simp add: L_def)
    finally show ?thesis .
  qed
  have rh: "LoadUint32_at d3 (t + 16) = Some ((tail kv + 16 + 4) div 4 + push_bit 24 (lv AND 0xff))"
    using d3 by (rule Load_Store)
  have rv: "slice d3 (t + 20) (t + 20 + length val) = Some val"
  proof -
    have "slice d3 (t + 20) (t + 20 + length val) = slice d2 (t + 20) (t + 20 + length val)"
      using d3 by (rule slice_after_Store) simp
    also have "\<dots> = Some val" using slice_copy_at [OF d2] l1 fitn c4b by simp
    finally show ?thesis .
  qed
  have x: "unat (tail kv div 4) < 2 ^ 24" "tail kv div 4 * 4 = tail kv"
    using tail_div4 [of "tail kv"] t4 t26 by (simp_all add: t_def)
  have l15: "unat lv < 2 ^ 15" using sh ulv by simp
  note sp = split_size [OF l15]
  note dec = idx_type1 [OF x(1) sp(2)]
  show off: "offset idx * 4 = tail kv" by (simp add: idx dec x)
  show vt: "valType idx = 1" by (simp add: idx dec)
  have y: "unat ((tail kv + 16 + 4) div 4) < 2 ^ 24" "(tail kv + 16 + 4) div 4 * 4 = tail kv + 16 + 4"
    using tail_div4 [of "tail kv + 16 + 4"] t4 fitn L u20 by simp_all
  note hd = hdr_decode [OF y(1) sp(3)]
  have vo: "unat ((((tail kv + 16 + 4) div 4 + push_bit 24 (lv AND 0xff)) AND IdxOffsetMask) * 4) = t + 20"
    by (simp only: hd y u20)
  define dd where "dd = take (unat ntail) d3"
  have "getKVUnlock c (kv1\<lparr>data := dd\<rparr>) idx = Some (key, val)"
  proof (rule getKVUnlock_medium [where t = t and n = lv
           and h = "(tail kv + 16 + 4) div 4 + push_bit 24 (lv AND 0xff)"])
    show "unat (offset idx * 4) = t" by (simp add: off t_def)
    show "slice (data (kv1\<lparr>data := dd\<rparr>)) t (t + 16) = Some key"
      using slice_take [OF rk, of "unat ntail"] unt by (simp add: dd_def)
    show "LoadUint32_at (data (kv1\<lparr>data := dd\<rparr>)) (t + 16) =
          Some ((tail kv + 16 + 4) div 4 + push_bit 24 (lv AND 0xff))"
      using LoadUint32_at_take [OF rh, of "unat ntail"] unt by (simp add: dd_def)
    show "valType idx \<noteq> 0" by (simp add: vt)
    show "drop_bit 24 (((tail kv + 16 + 4) div 4 + push_bit 24 (lv AND 0xff)) AND IdxSmallSizeMask) +
          push_bit 8 (capOrBigSize idx) = lv"
      unfolding hd(2) idx dec(2) by (rule sp(1))
    show "lv \<noteq> overLongSize c" by (rule ne)
    show "slice (data (kv1\<lparr>data := dd\<rparr>))
       (unat ((((tail kv + 16 + 4) div 4 + push_bit 24 (lv AND 0xff)) AND IdxOffsetMask) * 4))
       (unat ((((tail kv + 16 + 4) div 4 + push_bit 24 (lv AND 0xff)) AND IdxOffsetMask) * 4) +
        unat lv) = Some val"
      unfolding vo ulv
      using slice_take [OF rv, of "unat ntail"] unt c4b by (simp add: dd_def)
  qed
  then show "getKVUnlock c (kv1\<lparr>data := take (unat (tail kv1)) (data kv1)\<rparr>) idx = Some (key, val)"
    by (simp add: dd_def kv1)
qed

text \<open>The long layout: a value of at least \<open>overLongSize\<close> bytes, behind its 4-byte size.\<close>

lemma append_record_long:
  fixes kv :: kvHolder and val :: "byte list"
  defines "t \<equiv> unat (tail kv)"
  defines "lv \<equiv> (of_nat (length val) :: uint32)"
  assumes ok: "arena_ok kv" and co: "consts_ok c"
    and lk: "length key = 16" and lvl: "length val < 2 ^ 31"
    and br: "lv \<ge> overLongSize c"
    and ap: "append_record c kv key val = Some (Some (idx, kv1))"
  shows "unat (tail kv1) = t + 20 + ((length val + 3) div 4 * 4 + 4)"
    and "unat (tail kv1) \<le> unat (cap kv)"
    and "cap kv1 = cap kv" and "length (data kv1) = length (data kv)"
    and "take t (data kv1) = take t (data kv)"
    and "offset idx * 4 = tail kv"
    and "getKVUnlock c (kv1\<lparr>data := take (unat (tail kv1)) (data kv1)\<rparr>) idx = Some (key, val)"
    and "valType idx = 1"
proof -
  define L where "L = length (data kv)"
  define c4 where "c4 = (length val + 3) div 4 * 4"
  define hH where "hH = drop_bit 24 (overLongStoreHeaderH c)"
  define hL where "hL = drop_bit 24 (overLongStoreHeaderL c)"
  have H: "overLongStoreHeaderH c = push_bit 24 hH" and hH: "unat hH < 128"
    and Lw: "overLongStoreHeaderL c = push_bit 24 hL" and sen: "hL + push_bit 8 hH = overLongSize c"
    using co unfolding consts_ok_def Let_def hH_def hL_def by blast+
  have hL: "unat hL < 2 ^ 8"
    using unsigned_less [of "overLongStoreHeaderL c", where 'a = nat]
    by (simp add: hL_def unat_drop24)
  have L: "L = unat (cap kv)" "L < 2 ^ 26" and t4: "4 dvd t" "4 \<le> t" "t \<le> L"
    using ok by (simp_all add: arena_ok_def L_def t_def)
  have t26: "unat (tail kv) < 2 ^ 26" using t4 L by (simp add: t_def)
  have ulv: "unat lv = length val" using lvl by (simp add: lv_def unat_of_nat)
  have uc4: "unat (Cap4Size lv) = c4" using unat_Cap4Size [of lv] ulv lvl by (simp add: c4_def)
  have c4b: "length val \<le> c4" "c4 < 2 ^ 31 + 4" "4 dvd c4" using lvl by (simp_all add: c4_def)
  define ntail where "ntail = tail kv + 20 + (Cap4Size lv + 4)"
  have a: "unat (Cap4Size lv + 4) = c4 + 4" using c4b uc4 by (simp add: unat_word_ariths)
  have b: "unat (tail kv + 20) = t + 20" using t26 by (simp add: unat_word_ariths t_def)
  have "unat (tail kv + 20) + unat (Cap4Size lv + 4) < 2 ^ LENGTH(32)"
    unfolding a b using t26 c4b by (simp add: t_def)
  then have "unat (tail kv + 20 + (Cap4Size lv + 4)) = unat (tail kv + 20) + unat (Cap4Size lv + 4)"
    by (rule unat_add_lem [THEN iffD1])
  then have unt: "unat ntail = t + 20 + (c4 + 4)"
    unfolding a b ntail_def .
  have u16: "unat (tail kv + 16) = t + 16" and u20: "unat (tail kv + 16 + 4) = t + 20"
    and u24: "unat (tail kv + 16 + 4 + 4) = t + 24"
    using t26 by (simp_all add: unat_word_ariths t_def)
  have ap': "append_record c kv key val =
     (if ntail > cap kv then Some None
      else do {
        d1 \<leftarrow> copy_at (data kv) t key;
        d2 \<leftarrow> StoreUint32_at d1 (t + 20) lv;
        d3 \<leftarrow> copy_at d2 (t + 24) val;
        d4 \<leftarrow> StoreUint32_at d3 (t + 16) ((tail kv + 16 + 4) div 4 + push_bit 24 hL);
        Some (Some (tail kv div 4 + push_bit 24 hH + mapTypeHeader,
                    kv\<lparr>data := d4, items := items kv + 1,
                       valUsed := valUsed kv + (Cap4Size lv + 4), tail := ntail\<rparr>))
      })"
    unfolding append_record_def Let_def lv_def [symmetric] ntail_def [symmetric]
      u16 u20 u24 t_def [symmetric] storeUintBytes_def H Lw
    using br by simp
  from ap have fit: "\<not> ntail > cap kv" unfolding ap' by (auto split: if_splits)
  then have fitn: "t + 20 + (c4 + 4) \<le> L" using unt L by (simp add: word_less_nat_alt not_less)
  from ap fit obtain d1 d2 d3 d4 where d1: "copy_at (data kv) t key = Some d1"
    and d2: "StoreUint32_at d1 (t + 20) lv = Some d2"
    and d3: "copy_at d2 (t + 24) val = Some d3"
    and d4: "StoreUint32_at d3 (t + 16) ((tail kv + 16 + 4) div 4 + push_bit 24 hL) = Some d4"
    and idx: "idx = tail kv div 4 + push_bit 24 hH + mapTypeHeader"
    and kv1: "kv1 = kv\<lparr>data := d4, items := items kv + 1,
                       valUsed := valUsed kv + (Cap4Size lv + 4), tail := ntail\<rparr>"
    unfolding ap' by (auto split: if_splits bind_splits)
  have l1: "length d1 = L" using d1 by (simp add: length_copy_at L_def)
  have l2: "length d2 = L" using d2 l1 by (simp add: length_StoreUint32_at)
  have l3: "length d3 = L" using d3 l2 by (simp add: length_copy_at)
  have l4: "length d4 = L" using d4 l3 by (simp add: length_StoreUint32_at)
  show "unat (tail kv1) = t + 20 + ((length val + 3) div 4 * 4 + 4)"
    by (simp add: kv1 unt c4_def)
  show "unat (tail kv1) \<le> unat (cap kv)" using fitn L by (simp add: kv1 unt)
  show "cap kv1 = cap kv" by (simp add: kv1)
  show "length (data kv1) = length (data kv)" using l4 by (simp add: kv1 L_def)
  have "take t d4 = take t d3" using d4 by (rule take_Store) simp
  also have "\<dots> = take t d2" using d3 by (rule take_copy_at) simp
  also have "\<dots> = take t d1" using d2 by (rule take_Store) simp
  also have "\<dots> = take t (data kv)" using d1 by (rule take_copy_at) simp
  finally show "take t (data kv1) = take t (data kv)" by (simp add: kv1)
  have rk: "slice d4 t (t + 16) = Some key"
  proof -
    have "slice d4 t (t + 16) = slice d3 t (t + 16)" using d4 by (rule slice_after_Store) simp
    also have "\<dots> = slice d2 t (t + 16)" using d3 by (rule slice_after_copy) simp
    also have "\<dots> = slice d1 t (t + 16)" using d2 by (rule slice_after_Store) simp
    also have "\<dots> = Some key" using slice_copy_at [OF d1] lk fitn by (simp add: L_def)
    finally show ?thesis .
  qed
  have rh: "LoadUint32_at d4 (t + 16) = Some ((tail kv + 16 + 4) div 4 + push_bit 24 hL)"
    using d4 by (rule Load_Store)
  have rn: "LoadUint32_at d4 (t + 20) = Some lv"
  proof -
    have "LoadUint32_at d4 (t + 20) = LoadUint32_at d3 (t + 20)"
      using d4 by (rule Load_after_Store) simp
    also have "\<dots> = LoadUint32_at d2 (t + 20)" using d3 by (rule Load_after_copy) simp
    also have "\<dots> = Some lv" using d2 by (rule Load_Store)
    finally show ?thesis .
  qed
  have rv: "slice d4 (t + 24) (t + 24 + length val) = Some val"
  proof -
    have "slice d4 (t + 24) (t + 24 + length val) = slice d3 (t + 24) (t + 24 + length val)"
      using d4 by (rule slice_after_Store) simp
    also have "\<dots> = Some val" using slice_copy_at [OF d3] l2 fitn c4b by simp
    finally show ?thesis .
  qed
  have x: "unat (tail kv div 4) < 2 ^ 24" "tail kv div 4 * 4 = tail kv"
    using tail_div4 [of "tail kv"] t4 t26 by (simp_all add: t_def)
  note dec = idx_type1 [OF x(1) hH]
  show off: "offset idx * 4 = tail kv" by (simp add: idx dec x)
  show vt: "valType idx = 1" by (simp add: idx dec)
  have y: "unat ((tail kv + 16 + 4) div 4) < 2 ^ 24" "(tail kv + 16 + 4) div 4 * 4 = tail kv + 16 + 4"
    using tail_div4 [of "tail kv + 16 + 4"] t4 fitn L u20 by simp_all
  note hd = hdr_decode [OF y(1) hL]
  have vo: "unat ((((tail kv + 16 + 4) div 4 + push_bit 24 hL) AND IdxOffsetMask) * 4) = t + 20"
    by (simp only: hd y u20)
  have vo4: "unat ((((tail kv + 16 + 4) div 4 + push_bit 24 hL) AND IdxOffsetMask) * 4 + 4) = t + 24"
    by (simp only: hd y u24)
  define dd where "dd = take (unat ntail) d4"
  have "getKVUnlock c (kv1\<lparr>data := dd\<rparr>) idx = Some (key, val)"
  proof (rule getKVUnlock_long [where t = t and n = lv
           and h = "(tail kv + 16 + 4) div 4 + push_bit 24 hL"])
    show "unat (offset idx * 4) = t" by (simp add: off t_def)
    show "slice (data (kv1\<lparr>data := dd\<rparr>)) t (t + 16) = Some key"
      using slice_take [OF rk, of "unat ntail"] unt by (simp add: dd_def)
    show "LoadUint32_at (data (kv1\<lparr>data := dd\<rparr>)) (t + 16) =
          Some ((tail kv + 16 + 4) div 4 + push_bit 24 hL)"
      using LoadUint32_at_take [OF rh, of "unat ntail"] unt by (simp add: dd_def)
    show "valType idx \<noteq> 0" by (simp add: vt)
    show "drop_bit 24 (((tail kv + 16 + 4) div 4 + push_bit 24 hL) AND IdxSmallSizeMask) +
          push_bit 8 (capOrBigSize idx) = overLongSize c"
      unfolding hd(2) idx dec(2) by (rule sen)
    show "LoadUint32_at (data (kv1\<lparr>data := dd\<rparr>))
            (unat ((((tail kv + 16 + 4) div 4 + push_bit 24 hL) AND IdxOffsetMask) * 4)) = Some lv"
      unfolding vo
      using LoadUint32_at_take [OF rn, of "unat ntail"] unt by (simp add: dd_def)
    show "slice (data (kv1\<lparr>data := dd\<rparr>))
       (unat ((((tail kv + 16 + 4) div 4 + push_bit 24 hL) AND IdxOffsetMask) * 4 + 4))
       (unat ((((tail kv + 16 + 4) div 4 + push_bit 24 hL) AND IdxOffsetMask) * 4 + 4) +
        unat lv) = Some val"
      unfolding vo4 ulv
      using slice_take [OF rv, of "unat ntail"] unt c4b by (simp add: dd_def)
  qed
  then show "getKVUnlock c (kv1\<lparr>data := take (unat (tail kv1)) (data kv1)\<rparr>) idx = Some (key, val)"
    by (simp add: dd_def kv1)
qed

section \<open>Rebuilding the tables\<close>

subsection \<open>The search for an empty slot ends\<close>

lemma find_empty_skip:
  assumes "\<And>j. j < k \<Longrightarrow> ((next_group n) ^^ j) g < length ct \<and>
                         metaMatchEmpty (ct ! (((next_group n) ^^ j) g)) = 0"
  shows "find_empty ct n g = find_empty ct n (((next_group n) ^^ k) g)"
  using assms
proof (induction k arbitrary: g)
  case 0
  then show ?case by simp
next
  case (Suc k)
  have "g < length ct \<and> metaMatchEmpty (ct ! g) = 0" using Suc.prems [of 0] by simp
  then have step: "find_empty ct n g = find_empty ct n (next_group n g)"
    by (subst find_empty.simps) simp
  have "find_empty ct n (next_group n g) =
        find_empty ct n (((next_group n) ^^ k) (next_group n g))"
  proof (rule Suc.IH)
    fix j assume "j < k"
    then show "((next_group n) ^^ j) (next_group n g) < length ct \<and>
               metaMatchEmpty (ct ! (((next_group n) ^^ j) (next_group n g))) = 0"
      using Suc.prems [of "Suc j"] by (simp add: funpow_swap1)
  qed
  with step show ?case by (simp add: funpow_swap1)
qed

lemma find_empty_total:
  assumes n: "length ct = n" and g0: "g0 < n"
    and ex: "\<exists>g<n. metaMatchEmpty (ct ! g) \<noteq> 0"
  shows "\<exists>g. find_empty ct n g0 = Some (Miss g)"
proof -
  from ex obtain g where g: "g < n" "metaMatchEmpty (ct ! g) \<noteq> 0" by blast
  from cyclic_reach [OF g0 g(1)] obtain k0 where "(g0 + k0) mod n = g" ..
  with g(2) have ex': "metaMatchEmpty (ct ! ((g0 + k0) mod n)) \<noteq> 0" by simp
  define k where "k = (LEAST k. metaMatchEmpty (ct ! ((g0 + k) mod n)) \<noteq> 0)"
  have last: "metaMatchEmpty (ct ! ((g0 + k) mod n)) \<noteq> 0"
    unfolding k_def using ex' by (rule LeastI)
  have before: "metaMatchEmpty (ct ! ((g0 + j) mod n)) = 0" if "j < k" for j
    using not_less_Least [of j "\<lambda>k. metaMatchEmpty (ct ! ((g0 + k) mod n)) \<noteq> 0"] that
    by (simp add: k_def)
  have fp: "((next_group n) ^^ j) g0 = (g0 + j) mod n" for j
    using g0 by (rule next_group_funpow)
  have lt: "(g0 + j) mod n < length ct" for j using g0 n by simp
  have "find_empty ct n g0 = find_empty ct n (((next_group n) ^^ k) g0)"
    by (rule find_empty_skip) (simp add: fp lt before)
  also have "\<dots> = Some (Miss ((g0 + k) mod n))"
    using last lt [of k] by (subst find_empty.simps) (simp add: fp not_le)
  finally show ?thesis by blast
qed

text \<open>A table with fewer occupied slots than slots, and no tombstone, has an empty slot.\<close>

lemma exists_empty:
  assumes rows: "list_all (\<lambda>r. length r = 16) ct"
    and cnt: "count_slots occupied ct < 16 * length ct"
    and nt: "count_slots (\<lambda>b. b = tombstone) ct = 0"
  shows "\<exists>g<length ct. metaMatchEmpty (ct ! g) \<noteq> 0"
proof (rule ccontr)
  assume "\<not> (\<exists>g<length ct. metaMatchEmpty (ct ! g) \<noteq> 0)"
  then have ne: "empty_meta \<notin> set r" if "r \<in> set ct" for r
    using that rows metaMatchEmpty_nonzero [of r]
    by (auto simp: in_set_conv_nth list_all_length)
  have ntr: "tombstone \<notin> set r" if "r \<in> set ct" for r
  proof
    assume "tombstone \<in> set r"
    then have "filter (\<lambda>b. b = tombstone) r \<noteq> []" by (auto simp: filter_empty_conv)
    then have "0 < length (filter (\<lambda>b. b = tombstone) r)" by simp
    moreover have "length (filter (\<lambda>b. b = tombstone) r) \<le> count_slots (\<lambda>b. b = tombstone) ct"
      unfolding count_slots_def using that by (intro member_le_sum_list) auto
    ultimately show False using nt by simp
  qed
  have "length (filter occupied r) = 16" if "r \<in> set ct" for r
  proof -
    have "filter occupied r = r"
      using ne [OF that] ntr [OF that] by (auto simp: filter_id_conv occupied_def)
    then show ?thesis using rows that by (simp add: list_all_iff)
  qed
  then have "sum_list (map (\<lambda>row. length (filter occupied row)) ct) =
             sum_list (map (\<lambda>row. 16) ct)"
    by (intro arg_cong [where f = sum_list] map_cong) auto
  then have "count_slots occupied ct = 16 * length ct"
    by (simp add: count_slots_def sum_list_triv)
  with cnt show False by simp
qed

subsection \<open>What a record takes of the arena\<close>

text \<open>
  The bytes that \<open>append_record\<close> takes for a value: the key, Word B, the value rounded
  up to a multiple of 4 and, in the long layout, the 4-byte size.
\<close>

definition record_size :: "vconsts \<Rightarrow> byte list \<Rightarrow> nat" where
  "record_size c val =
     20 + (length val + 3) div 4 * 4 +
     (if (of_nat (length val) :: uint32) \<ge> overLongSize c then 4 else 0)"

lemma append_record_sound:
  assumes ok: "arena_ok kv" and co: "consts_ok c"
    and lk: "length key = 16" and lvl: "length val < 2 ^ 31"
    and ap: "append_record c kv key val = Some (Some (idx, kv1))"
  shows "unat (tail kv1) = unat (tail kv) + record_size c val"
    and "arena_ok kv1" and "cap kv1 = cap kv"
    and "take (unat (tail kv)) (data kv1) = take (unat (tail kv)) (data kv)"
    and "offset idx * 4 = tail kv"
    and "getKVUnlock c (kv1\<lparr>data := take (unat (tail kv1)) (data kv1)\<rparr>) idx = Some (key, val)"
proof -
  define lv :: uint32 where "lv = of_nat (length val)"
  consider (long) "lv \<ge> overLongSize c"
    | (medium) "\<not> lv \<ge> overLongSize c" "lv \<ge> overShortSize c"
    | (short) "\<not> lv \<ge> overLongSize c" "\<not> lv \<ge> overShortSize c"
    by blast
  then have all: "unat (tail kv1) = unat (tail kv) + record_size c val \<and>
        unat (tail kv1) \<le> unat (cap kv) \<and> cap kv1 = cap kv \<and>
        length (data kv1) = length (data kv) \<and>
        take (unat (tail kv)) (data kv1) = take (unat (tail kv)) (data kv) \<and>
        offset idx * 4 = tail kv \<and>
        getKVUnlock c (kv1\<lparr>data := take (unat (tail kv1)) (data kv1)\<rparr>) idx = Some (key, val)"
  proof cases
    case long
    note r = append_record_long [OF ok co lk lvl long [unfolded lv_def] ap]
    show ?thesis using r(1-7) long by (simp add: record_size_def lv_def)
  next
    case medium
    note r = append_record_medium [OF ok co lk lvl medium [unfolded lv_def] ap]
    show ?thesis using r(1-7) medium by (simp add: record_size_def lv_def)
  next
    case short
    note r = append_record_short [OF ok co lk lvl short [unfolded lv_def] ap]
    show ?thesis using r(1-7) short by (simp add: record_size_def lv_def)
  qed
  then show "unat (tail kv1) = unat (tail kv) + record_size c val" "cap kv1 = cap kv"
    "take (unat (tail kv)) (data kv1) = take (unat (tail kv)) (data kv)"
    "offset idx * 4 = tail kv"
    "getKVUnlock c (kv1\<lparr>data := take (unat (tail kv1)) (data kv1)\<rparr>) idx = Some (key, val)"
    by blast+
  have "4 dvd record_size c val" by (simp add: record_size_def)
  then show "arena_ok kv1"
    using ok all unfolding arena_ok_def by (simp add: record_size_def)
qed

lemma append_record_fits:
  fixes kv :: kvHolder and val :: "byte list"
  assumes ok: "arena_ok kv" and lvl: "length val < 2 ^ 31"
    and fit: "unat (tail kv) + record_size c val \<le> unat (cap kv)"
  shows "\<exists>idx kv1. append_record c kv key val = Some (Some (idx, kv1))"
proof -
  define t where "t = unat (tail kv)"
  define lv :: uint32 where "lv = of_nat (length val)"
  define L where "L = length (data kv)"
  define c4 where "c4 = (length val + 3) div 4 * 4"
  have L: "L = unat (cap kv)" "L < 2 ^ 26" and t4: "t \<le> L"
    using ok by (simp_all add: arena_ok_def L_def t_def)
  have t26: "unat (tail kv) < 2 ^ 26" using t4 L by (simp add: t_def)
  have ulv: "unat lv = length val" using lvl by (simp add: lv_def unat_of_nat)
  have uc4: "unat (Cap4Size lv) = c4" using unat_Cap4Size [of lv] ulv lvl by (simp add: c4_def)
  have c4b: "c4 < 2 ^ 31 + 4" using lvl by (simp add: c4_def)
  have u16: "unat (tail kv + 16) = t + 16" and u20: "unat (tail kv + 16 + 4) = t + 20"
    and u24: "unat (tail kv + 16 + 4 + 4) = t + 24"
    using t26 by (simp_all add: unat_word_ariths t_def)
  have b: "unat (tail kv + 20) = t + 20" using t26 by (simp add: unat_word_ariths t_def)
  have cp: "\<exists>d'. copy_at d off src = Some d' \<and> length d' = L" if "length d = L" "off \<le> L" for d off src
    using copy_at_Some [of off d src] that length_copy_at [of d off src] by auto
  have st: "\<exists>d'. StoreUint32_at d off v = Some d' \<and> length d' = L" if "length d = L" "off + 4 \<le> L" for d off v
    using StoreUint32_at_Some [of off d v] that length_StoreUint32_at [of d off v] by auto
  show ?thesis
  proof (cases "lv \<ge> overLongSize c")
    case True
    then have fitn: "t + 20 + (c4 + 4) \<le> L"
      using fit L by (simp add: record_size_def lv_def c4_def t_def)
    have a: "unat (Cap4Size lv + 4) = c4 + 4" using c4b uc4 by (simp add: unat_word_ariths)
    have "unat (tail kv + 20) + unat (Cap4Size lv + 4) < 2 ^ LENGTH(32)"
      unfolding a b using t26 c4b by (simp add: t_def)
    then have "unat (tail kv + 20 + (Cap4Size lv + 4)) = unat (tail kv + 20) + unat (Cap4Size lv + 4)"
      by (rule unat_add_lem [THEN iffD1])
    then have nf: "\<not> cap kv < tail kv + 20 + (Cap4Size lv + 4)"
      unfolding a b using fitn L by (simp add: word_less_nat_alt)
    obtain d1 where d1: "copy_at (data kv) t key = Some d1" "length d1 = L"
      using cp [of "data kv" t key] t4 by (auto simp: L_def)
    obtain d2 where d2: "StoreUint32_at d1 (t + 20) lv = Some d2" "length d2 = L"
      using st [OF d1(2), of "t + 20" lv] fitn by auto
    obtain d3 where d3: "copy_at d2 (t + 24) val = Some d3" "length d3 = L"
      using cp [OF d2(2), of "t + 24" val] fitn by auto
    obtain d4 where d4: "StoreUint32_at d3 (t + 16)
        ((tail kv + 16 + 4) div storeUintBytes + overLongStoreHeaderL c) = Some d4"
      using st [OF d3(2), of "t + 16"] fitn by auto
    show ?thesis
      unfolding append_record_def Let_def lv_def [symmetric] u16 u20 u24 t_def [symmetric]
      using True nf d1 d2 d3 d4 by simp
  next
    case False
    then have fitn: "t + 20 + c4 \<le> L"
      using fit L by (simp add: record_size_def lv_def c4_def t_def)
    have "unat (tail kv + 20) + unat (Cap4Size lv) < 2 ^ LENGTH(32)"
      unfolding uc4 b using t26 c4b by (simp add: t_def)
    then have "unat (tail kv + 20 + Cap4Size lv) = unat (tail kv + 20) + unat (Cap4Size lv)"
      by (rule unat_add_lem [THEN iffD1])
    then have nf: "\<not> cap kv < tail kv + 20 + Cap4Size lv"
      unfolding uc4 b using fitn L by (simp add: word_less_nat_alt)
    obtain d1 where d1: "copy_at (data kv) t key = Some d1" "length d1 = L"
      using cp [of "data kv" t key] t4 by (auto simp: L_def)
    obtain d2 where d2: "copy_at d1 (t + 20) val = Some d2" "length d2 = L"
      using cp [OF d1(2), of "t + 20" val] fitn by auto
    have d3: "\<exists>d3. StoreUint32_at d2 (t + 16) w = Some d3" for w
      using st [OF d2(2), of "t + 16" w] fitn by auto
    obtain d3a where d3a: "StoreUint32_at d2 (t + 16)
        ((tail kv + 16 + 4) div 4 + push_bit 24 (lv AND 0xff)) = Some d3a"
      using d3 by blast
    obtain d3b where d3b: "StoreUint32_at d2 (t + 16)
        ((tail kv + 16 + 4) div 4 + push_bit 24 lv) = Some d3b"
      using d3 by blast
    show ?thesis
      unfolding append_record_def Let_def lv_def [symmetric] u16 u20 u24 t_def [symmetric]
      using False nf d1 d2 d3a d3b by simp
  qed
qed

lemma gcSet_Some:
  "gcSet c kv k v = Some r \<longleftrightarrow> append_record c kv k v = Some (Some r)"
  by (auto simp: gcSet_def split: option.splits)

section \<open>A concrete shard\<close>

text \<open>
  One assignment of the constants that are not in the given sources. The sentinel size of
  the long layout has to be a size that 7 + 8 bits can hold, so the example takes
  \<open>overLongSize = 32767\<close> with both size fields all ones.
\<close>

definition ex_consts :: vconsts where
  "ex_consts = \<lparr>overShortSize = 256, overLongSize = 32767, limitSize = 16777216,
                 overLongStoreHeaderH = 0x7F000000, overLongStoreHeaderL = 0xFF000000\<rparr>"

text \<open>
  A shard of one group that holds the key \<open>ex_key\<close> with the value \<open>"xx"\<close> (small-inline,
  capacity 4), as \<open>RePut\<close> leaves it in an arena of 64 bytes whose first record starts at
  offset 4.
\<close>

definition ex_key :: "byte list" where
  "ex_key = [1, 2, 3, 4, 5, 6, 7, 8, 9, 10, 11, 12, 13, 14, 15, 16]"

definition ex_data :: "byte list" where
  "ex_data = [0, 0, 0, 0] @ ex_key @ [6, 0, 0, 2] @ [120, 120, 0, 0] @ replicate 36 0"

definition ex_map :: LFUMap where
  "ex_map = \<lparr>kvHolder = \<lparr>data = ex_data, tail = 28, cap = 64, kvlimit = 64, items = 1, valUsed = 4\<rparr>,
             ctrl = [5 # replicate 15 empty_meta],
             counters = [1 # replicate 15 0],
             groups = [0x01000001 # replicate 15 0],
             resident = 1, dead = 0, limit = 14, queryCnt = 0, missCnt = 0, rehashing = False\<rparr>"

text \<open>One choice of the parameters of \<open>Eliminate\<close>, with integer arithmetic for the rates.\<close>

definition ex_policy :: policy where
  "ex_policy = \<lparr>missRateBelow = (\<lambda>miss qc. 10 * miss < qc),
                 itemsMemUsageBelow = (\<lambda>kv. 10 * (valUsed kv + items kv * 20 + 4) < 8 * cap kv),
                 dropCount = (\<lambda>n. (uint n + 3) div 4),
                 BuildMinTopCounter = (\<lambda>ct cs n. ([], 0))\<rparr>"

text \<open>
  The same shard in an arena of 40000 bytes, and a value of 32767 bytes (long layout).
  Facts about this shard are proved without unfolding the arena.
\<close>

definition ex_big :: LFUMap where
  "ex_big = ex_map\<lparr>kvHolder := (kvHolder ex_map)\<lparr>data := ex_data @ replicate 39936 0,
                                                cap := 40000, kvlimit := 40000\<rparr>\<rparr>"

definition ex_md5hl :: "byte list \<Rightarrow> uint64" where
  "ex_md5hl k = 5"

definition ex_long_val :: "byte list" where
  "ex_long_val = replicate 32767 1"

lemma ex_big_fields:
  "ctrl ex_big = ctrl ex_map" "groups ex_big = groups ex_map" "counters ex_big = counters ex_map"
  "tail (kvHolder ex_big) = 28" "cap (kvHolder ex_big) = 40000" "kvlimit (kvHolder ex_big) = 40000"
  "resident ex_big = 1" "limit ex_big = 14" "\<not> rehashing ex_big"
  "data (kvHolder ex_big) = ex_data @ replicate 39936 0"
  by (simp_all add: ex_big_def ex_map_def)

lemma ex_big_shape: "shape ex_big"
  by (simp add: shape_def ex_big_fields) (simp add: ex_map_def)

lemma ex_big_hits: "probe_hits ex_big ex_key 5 0 0"
  by (simp add: probe_hits_def passes_def probe_group_def splitHash_def probeStart_def
        getKey_def slice_def offset_def IdxOffsetMask_def ex_big_fields)
     (simp add: ex_map_def ex_data_def ex_key_def)

lemma ex_big_header:
  "LoadUint32_at (data (kvHolder ex_big)) (unat (offset (groups ex_big ! 0 ! 0) * 4 + 16)) = Some 0x02000006"
  by (simp add: ex_big_fields offset_def IdxOffsetMask_def)
     (simp add: ex_map_def LoadUint32_at_def ex_data_def ex_key_def nth_append word_rcat_def)


lemma ex_long_len: "(of_nat (length ex_long_val) :: uint32) = 32767"
  by (simp add: ex_long_val_def)

section \<open>Claims\<close>

text \<open>
  C2. When the probe of \<open>Put\<close> ends at a group that holds an empty slot and no slot on the
  way (that group included) holds the key, \<open>Put\<close> returns \<open>false\<close> and the shard it leaves is
  the shard it was given: control bytes, counters, descriptors, \<open>resident\<close>, \<open>dead\<close> and
  the arena are unchanged. \<open>probe_misses m key l n\<close> says that the probe for hash \<open>l\<close> passes
  \<open>n\<close> groups without an empty slot and ends at the next one.
\<close>

theorem Put_missing_key:
  assumes "shape m" and "probe_misses m key l n"
  shows "Put c m l key val = Return (False, m)"
  using probe_misses_Miss [OF assms]
  by (simp add: Put_def)

theorem Put_missing_key_witness:
  "shape ex_map \<and> probe_misses ex_map (replicate 16 0) 5 0 \<and>
   Put ex_consts ex_map 5 (replicate 16 0) [121, 121] = Return (False, ex_map)"
proof -
  have h1: "shape ex_map" by code_simp
  have h2: "probe_misses ex_map (replicate 16 0) 5 0" by code_simp
  show ?thesis using h1 h2 Put_missing_key [OF h1 h2] by simp
qed

text \<open>
  C3 (as stated). "\<open>RePut\<close> on a present key gives the same result and the same shard as
  \<open>Put\<close>, in all four update branches." This fails for a value in the long layout: on
  the shard \<open>ex_big\<close> both return \<open>true\<close>, but \<open>Put\<close> moves the tail to
  \<open>tail + 20 + (Cap4Size lv + 4)\<close> and \<open>RePut\<close> to \<open>tail + 4 + (Cap4Size lv + 4)\<close>.
\<close>

theorem RePut_Put_differ_long:
  "RePut ex_consts ex_md5hl ex_big 5 ex_key ex_long_val \<noteq> Put ex_consts ex_big 5 ex_key ex_long_val"
proof -
  have hit: "find_slot ex_big 5 ex_key = Some (Hit 0 0)"
    using probe_hits_Hit [OF ex_big_shape ex_big_hits]
    by (simp add: probe_group_def ex_big_fields) (simp add: ex_map_def)
  have rel: "release_old ex_consts (kvHolder ex_big) (groups ex_big ! 0 ! 0) 0x02000006
              = Some ((kvHolder ex_big)\<lparr>valUsed := valUsed (kvHolder ex_big) - 1\<rparr>)"
    by (simp add: ex_big_fields) (simp add: ex_map_def release_old_def valType_def capOrBigSize_def)
  have c4: "Cap4Size 32767 = 32768" by (simp add: Cap4Size_def)
  obtain mP where mP: "Put_found ex_consts ex_big 0 0 ex_long_val = Some (True, mP)"
      "tail (kvHolder mP) = 32820"
    using Put_found_long_tail [OF ex_big_header rel, of ex_long_val]
    by (auto simp: ex_long_len ex_big_fields c4 ex_consts_def)
  obtain mR where mR: "RePut_found ex_consts ex_big 0 0 ex_long_val = Some (True, mR)"
      "tail (kvHolder mR) = 32804"
    using RePut_found_long_tail [OF ex_big_header rel, of ex_long_val]
    by (auto simp: ex_long_len ex_big_fields c4 ex_consts_def)
  have "Put ex_consts ex_big 5 ex_key ex_long_val = Return (True, mP)"
    using hit mP(1) by (simp add: Put_def)
  moreover have "RePut ex_consts ex_md5hl ex_big 5 ex_key ex_long_val = Return (True, mR)"
    using hit mR(1) by (simp add: RePut_def ex_big_fields word_le_nat_alt)
  moreover have "mP \<noteq> mR" using mP(2) mR(2) by auto
  ultimately show ?thesis by simp
qed


text \<open>
  C3 (amended). For a key that the probe finds and a value shorter than \<open>overLongSize\<close>
  (itself at most \<open>limitSize\<close>), when \<open>RePut\<close> passes its two early exits (the arena tail
  is below the arena limit, no rehash is in flight) and no rehash is due
  (\<open>resident < limit\<close>), \<open>RePut\<close> returns what \<open>Put\<close> returns and leaves the same shard: the
  medium-append, in-place and generic-append branches coincide, failing exits included.
\<close>

theorem RePut_existing_short_eq_Put:
  assumes "find_slot m l key = Some (Hit g s)"
    and "tail (kvHolder m) < kvlimit (kvHolder m)"
    and "\<not> rehashing m"
    and "resident m < limit m"
    and "(of_nat (length val) :: uint32) < overLongSize c"
    and "overLongSize c \<le> limitSize c"
  shows "RePut c md5hl m l key val = Put c m l key val"
proof -
  have "\<not> kvlimit (kvHolder m) \<le> tail (kvHolder m)" "\<not> limit m \<le> resident m"
    using assms(2,4) by (simp_all add: not_le)
  then show ?thesis
    using assms(1,3) RePut_found_eq_Put_found [OF assms(5,6)]
    by (simp add: RePut_def Put_def)
qed



theorem RePut_existing_short_eq_Put_witness:
  "find_slot ex_map 5 ex_key = Some (Hit 0 0) \<and>
   tail (kvHolder ex_map) < kvlimit (kvHolder ex_map) \<and>
   \<not> rehashing ex_map \<and>
   resident ex_map < limit ex_map \<and>
   (of_nat (length [121, 121 :: byte]) :: uint32) < overLongSize ex_consts \<and>
   overLongSize ex_consts \<le> limitSize ex_consts \<and>
   RePut ex_consts ex_md5hl ex_map 5 ex_key [121, 121] = Put ex_consts ex_map 5 ex_key [121, 121]"
proof -
  have h1: "find_slot ex_map 5 ex_key = Some (Hit 0 0)" by code_simp
  have h2: "tail (kvHolder ex_map) < kvlimit (kvHolder ex_map)" by code_simp
  have h3: "\<not> rehashing ex_map" by code_simp
  have h4: "resident ex_map < limit ex_map" by code_simp
  have h5: "(of_nat (length [121, 121 :: byte]) :: uint32) < overLongSize ex_consts" by code_simp
  have h6: "overLongSize ex_consts \<le> limitSize ex_consts" by code_simp
  show ?thesis
    using h1 h2 h3 h4 h5 h6 RePut_existing_short_eq_Put [OF h1 h2 h3 h4 h5 h6, of ex_md5hl]
    by blast
qed

text \<open>
  C4. Whenever \<open>Put\<close> on an existing key fails, because the new length is at least
  \<open>limitSize\<close> or because the tail an appending branch asks for exceeds \<open>cap\<close>
  (\<open>Put_fails\<close>), it returns \<open>false\<close> and the slot is tombstoned: its control byte is
  \<open>tombstone\<close>, \<open>dead\<close> is one more, its counter is 0 and \<open>items\<close> of the arena is one less.
  The key is the one the probe reaches (\<open>probe_hits\<close>) and the records of its slot lie
  inside the arena (\<open>slot_in_arena\<close>).
\<close>

theorem Put_failure_tombstones:
  assumes "shape m" and "probe_hits m key l n s"
    and "slot_in_arena c m (probe_group m l n) s"
    and "Put_fails c m (probe_group m l n) s val"
  shows "\<exists>m'. Put c m l key val = Return (False, m') \<and>
           ctrl m' ! probe_group m l n ! s = tombstone \<and>
           dead m' = dead m + 1 \<and>
           counters m' ! probe_group m l n ! s = 0 \<and>
           items (kvHolder m') = items (kvHolder m) - 1"
proof -
  let ?g = "probe_group m l n"
  have hit: "find_slot m l key = Some (Hit ?g s)"
    using assms(1,2) by (rule probe_hits_Hit)
  have lt: "?g < length (groups m)" using assms(1) by (rule probe_group_less)
  have len: "?g < length (ctrl m)" "?g < length (counters m)"
    using assms(1) lt by (simp_all add: shape_def)
  have row: "length (ctrl m ! ?g) = 16" "length (counters m ! ?g) = 16"
    using shape_row [OF assms(1) lt] by simp_all
  have s: "s < 16" using assms(2) by (simp add: probe_hits_def)
  from Put_found_fails [OF len lt row s assms(3,4)] hit show ?thesis
    by (auto simp: Put_def)
qed

theorem Put_failure_tombstones_witness:
  "shape ex_map \<and> probe_hits ex_map ex_key 5 0 0 \<and>
   slot_in_arena ex_consts ex_map (probe_group ex_map 5 0) 0 \<and>
   Put_fails ex_consts ex_map (probe_group ex_map 5 0) 0 (replicate 60 7) \<and>
   (\<exists>m'. Put ex_consts ex_map 5 ex_key (replicate 60 7) = Return (False, m') \<and>
           ctrl m' ! probe_group ex_map 5 0 ! 0 = tombstone \<and>
           dead m' = dead ex_map + 1 \<and>
           counters m' ! probe_group ex_map 5 0 ! 0 = 0 \<and>
           items (kvHolder m') = items (kvHolder ex_map) - 1)"
proof -
  have h1: "shape ex_map" by code_simp
  have h2: "probe_hits ex_map ex_key 5 0 0" by code_simp
  have h3: "slot_in_arena ex_consts ex_map (probe_group ex_map 5 0) 0" by code_simp
  have h4: "Put_fails ex_consts ex_map (probe_group ex_map 5 0) 0 (replicate 60 7)" by code_simp
  show ?thesis using h1 h2 h3 h4 Put_failure_tombstones [OF h1 h2 h3 h4] by simp
qed

text \<open>
  C5. After any sequence of shard operations (\<open>RePut\<close>, \<open>Put\<close>, \<open>PutMultiValue\<close>, \<open>Delete\<close>,
  \<open>Eliminate\<close>, \<open>rehash\<close>, \<open>GCCopy\<close>, \<open>Clear\<close>, and the readers \<open>Has\<close> and \<open>Get\<close>) on a new
  shard, each of which returns, \<open>Count()\<close> equals \<open>Items()\<close> and
  \<open>items + dead = resident\<close>.
\<close>

theorem count_consistency:
  assumes "run c md5hl p gb (newInnerLFUMap sz memMax) ops = Return m"
  shows "Count m = uint (Items m) \<and> Items m + dead m = resident m"
proof -
  have "counts_ok m" using newInnerLFUMap_counts assms by (rule run_counts)
  then show ?thesis by (simp add: counts_ok_def Count_def Items_def)
qed


theorem count_consistency_witness:
  "run ex_consts ex_md5hl ex_policy (\<lambda>kv. False) (newInnerLFUMap 1 64)
     [OpRePut 5 ex_key [120, 120]] = Return ex_map \<and>
   Count ex_map = uint (Items ex_map) \<and> Items ex_map + dead ex_map = resident ex_map"
proof -
  have h: "run ex_consts ex_md5hl ex_policy (\<lambda>kv. False) (newInnerLFUMap 1 64)
     [OpRePut 5 ex_key [120, 120]] = Return ex_map"
    by code_simp
  show ?thesis using h count_consistency [OF h] by simp
qed

text \<open>
  C6. For a key that the probe reaches, \<open>Delete\<close> returns \<open>true\<close>; \<open>items\<close> of the arena is
  one less; when the group of the slot holds an empty control byte the control byte of
  the slot becomes \<open>empty\<close> and \<open>resident\<close> is one less, otherwise it becomes \<open>tombstone\<close> and
  \<open>dead\<close> is one more; in both cases the counter of the slot is 0.
\<close>

theorem Delete_present_key:
  assumes "shape m" and "probe_hits m key l n s"
  shows "\<exists>m'. Delete m l key = Return (True, m') \<and>
           items (kvHolder m') = items (kvHolder m) - 1 \<and>
           counters m' ! probe_group m l n ! s = 0 \<and>
           (if has_empty m (probe_group m l n)
            then ctrl m' ! probe_group m l n ! s = empty_meta \<and>
                 resident m' = resident m - 1 \<and> dead m' = dead m
            else ctrl m' ! probe_group m l n ! s = tombstone \<and>
                 dead m' = dead m + 1 \<and> resident m' = resident m)"
proof -
  let ?g = "probe_group m l n"
  have hit: "find_slot m l key = Some (Hit ?g s)"
    using assms by (rule probe_hits_Hit)
  have lt: "?g < length (groups m)" using assms(1) by (rule probe_group_less)
  have len: "length (ctrl m) = length (groups m)" "length (counters m) = length (groups m)"
    using assms(1) by (simp_all add: shape_def)
  have row: "length (ctrl m ! ?g) = 16" "length (counters m ! ?g) = 16"
    using shape_row [OF assms(1) lt] by simp_all
  have s: "s < 16" using assms(2) by (simp add: probe_hits_def)
  show ?thesis
    using hit lt len row s has_empty_iff [OF assms(1) lt]
    by (simp add: Delete_def Delete_found_def Let_def del_def set2_same)
qed

theorem Delete_present_key_witness:
  "shape ex_map \<and> probe_hits ex_map ex_key 5 0 0 \<and>
   (\<exists>m'. Delete ex_map 5 ex_key = Return (True, m') \<and>
           items (kvHolder m') = items (kvHolder ex_map) - 1 \<and>
           counters m' ! probe_group ex_map 5 0 ! 0 = 0 \<and>
           (if has_empty ex_map (probe_group ex_map 5 0)
            then ctrl m' ! probe_group ex_map 5 0 ! 0 = empty_meta \<and>
                 resident m' = resident ex_map - 1 \<and> dead m' = dead ex_map
            else ctrl m' ! probe_group ex_map 5 0 ! 0 = tombstone \<and>
                 dead m' = dead ex_map + 1 \<and> resident m' = resident ex_map))"
proof -
  have h1: "shape ex_map" by code_simp
  have h2: "probe_hits ex_map ex_key 5 0 0" by code_simp
  show ?thesis using h1 h2 Delete_present_key [OF h1 h2] by simp
qed

text \<open>
  C8. For a key that the probe reaches, whose slot has value type 0, and a new value
  whose length is below \<open>overShortSize\<close> and at most the reserved capacity
  \<open>capOrBigSize * 4\<close>, \<open>Put\<close> returns \<open>true\<close> and the shard it leaves differs from the given
  one in the arena bytes only: \<open>tail\<close> (so \<open>UsedMem\<close>) and \<open>valUsed\<close> are unchanged, and
  every arena byte outside the four bytes of Word B and the bytes of the value is
  unchanged. The two windows are rewritten: the value window holds the new value when it
  lies inside the arena, and Word B holds \<open>vOffset + L << 24\<close> when the value window does
  not reach into it (the value is copied after Word B is stored). \<open>vHeader\<close> is Word B as
  read before the update; it gives the value offset.
\<close>

theorem Put_in_place:
  assumes "shape m" and "probe_hits m key l n s"
    and "consts_ordered c"
    and "LoadUint32_at (data (kvHolder m))
           (unat (offset (groups m ! probe_group m l n ! s) * 4 + 16)) = Some vHeader"
    and "unat ((vHeader AND IdxOffsetMask) * 4) \<le> length (data (kvHolder m))"
    and "valType (groups m ! probe_group m l n ! s) = 0"
    and "length val < unat (overShortSize c)"
    and "length val \<le> unat (capOrBigSize (groups m ! probe_group m l n ! s) * 4)"
  shows "\<exists>d'. Put c m l key val = Return (True, m\<lparr>kvHolder := (kvHolder m)\<lparr>data := d'\<rparr>\<rparr>) \<and>
           UsedMem (m\<lparr>kvHolder := (kvHolder m)\<lparr>data := d'\<rparr>\<rparr>) = UsedMem m \<and>
           valUsed ((kvHolder m)\<lparr>data := d'\<rparr>) = valUsed (kvHolder m) \<and>
           length d' = length (data (kvHolder m)) \<and>
           (\<forall>i < length (data (kvHolder m)).
                \<not> (unat (offset (groups m ! probe_group m l n ! s) * 4 + 16) \<le> i \<and>
                     i < unat (offset (groups m ! probe_group m l n ! s) * 4 + 16) + 4) \<and>
                \<not> (unat ((vHeader AND IdxOffsetMask) * 4) \<le> i \<and>
                     i < unat ((vHeader AND IdxOffsetMask) * 4) + length val)
                \<longrightarrow> d' ! i = data (kvHolder m) ! i) \<and>
           (unat ((vHeader AND IdxOffsetMask) * 4) + length val \<le> length (data (kvHolder m)) \<longrightarrow>
              slice d' (unat ((vHeader AND IdxOffsetMask) * 4))
                (unat ((vHeader AND IdxOffsetMask) * 4) + length val) = Some val) \<and>
           (unat (offset (groups m ! probe_group m l n ! s) * 4 + 16) + 4
                \<le> unat ((vHeader AND IdxOffsetMask) * 4) \<or>
            unat ((vHeader AND IdxOffsetMask) * 4) + length val
                \<le> unat (offset (groups m ! probe_group m l n ! s) * 4 + 16) \<longrightarrow>
              LoadUint32_at d' (unat (offset (groups m ! probe_group m l n ! s) * 4 + 16)) =
                Some ((vHeader AND IdxOffsetMask) + push_bit 24 (of_nat (length val))))"
proof -
  define d where "d = data (kvHolder m)"
  define kEnd where "kEnd = unat (offset (groups m ! probe_group m l n ! s) * 4 + 16)"
  define vo where "vo = unat ((vHeader AND IdxOffsetMask) * 4)"
  define wordB where "wordB = (vHeader AND IdxOffsetMask) + push_bit 24 (of_nat (length val) :: uint32)"
  have hit: "find_slot m l key = Some (Hit (probe_group m l n) s)"
    using assms(1,2) by (rule probe_hits_Hit)
  from Put_found_in_place_writes [OF assms(3-8)]
  obtain d1 d' where d1: "StoreUint32_at d kEnd wordB = Some d1"
    and d': "copy_at d1 vo val = Some d'"
    and pf: "Put_found c m (probe_group m l n) s val =
             Some (True, m\<lparr>kvHolder := (kvHolder m)\<lparr>data := d'\<rparr>\<rparr>)"
    unfolding d_def kEnd_def vo_def wordB_def by blast
  have l1: "length d1 = length d" using d1 by (rule length_StoreUint32_at)
  have l': "length d' = length d" using d' l1 by (simp add: length_copy_at)
  have frame: "d' ! i = d ! i"
    if "i < length d" "\<not> (kEnd \<le> i \<and> i < kEnd + 4)" "\<not> (vo \<le> i \<and> i < vo + length val)" for i
  proof -
    have "d' ! i = d1 ! i" using that l1 by (intro nth_copy_at_outside [OF d']) auto
    also have "d1 ! i = d ! i" using that by (intro nth_StoreUint32_at_outside [OF d1]) auto
    finally show ?thesis .
  qed
  have vwin: "slice d' vo (vo + length val) = Some val" if "vo + length val \<le> length d"
    using slice_copy_at [OF d'] that l1 by simp
  have hwin: "LoadUint32_at d' kEnd = Some wordB" if "kEnd + 4 \<le> vo \<or> vo + length val \<le> kEnd"
  proof -
    have "LoadUint32_at d' kEnd = LoadUint32_at d1 kEnd"
      using d' that by (rule Load_after_copy)
    also have "\<dots> = Some wordB" using d1 by (rule Load_Store)
    finally show ?thesis .
  qed
  have "Put c m l key val = Return (True, m\<lparr>kvHolder := (kvHolder m)\<lparr>data := d'\<rparr>\<rparr>)"
    using hit pf by (simp add: Put_def)
  moreover have "UsedMem (m\<lparr>kvHolder := (kvHolder m)\<lparr>data := d'\<rparr>\<rparr>) = UsedMem m"
    by (simp add: UsedMem_def)
  ultimately show ?thesis
    using l' frame vwin hwin
    unfolding d_def kEnd_def vo_def wordB_def
    by (intro exI [of _ d']) simp
qed

theorem Put_in_place_witness:
  "shape ex_map \<and> probe_hits ex_map ex_key 5 0 0 \<and> consts_ordered ex_consts \<and>
   LoadUint32_at (data (kvHolder ex_map))
     (unat (offset (groups ex_map ! probe_group ex_map 5 0 ! 0) * 4 + 16)) = Some 0x02000006 \<and>
   unat ((0x02000006 AND IdxOffsetMask) * 4) \<le> length (data (kvHolder ex_map)) \<and>
   valType (groups ex_map ! probe_group ex_map 5 0 ! 0) = 0 \<and>
   length [121, 121 :: byte] < unat (overShortSize ex_consts) \<and>
   length [121, 121 :: byte] \<le> unat (capOrBigSize (groups ex_map ! probe_group ex_map 5 0 ! 0) * 4) \<and>
   unat ((0x02000006 AND IdxOffsetMask) * 4) + length [121, 121 :: byte]
     \<le> length (data (kvHolder ex_map)) \<and>
   unat (offset (groups ex_map ! probe_group ex_map 5 0 ! 0) * 4 + 16) + 4
     \<le> unat ((0x02000006 AND IdxOffsetMask) * 4) \<and>
   (\<exists>d'. Put ex_consts ex_map 5 ex_key [121, 121] =
            Return (True, ex_map\<lparr>kvHolder := (kvHolder ex_map)\<lparr>data := d'\<rparr>\<rparr>) \<and>
          UsedMem (ex_map\<lparr>kvHolder := (kvHolder ex_map)\<lparr>data := d'\<rparr>\<rparr>) = UsedMem ex_map \<and>
          valUsed ((kvHolder ex_map)\<lparr>data := d'\<rparr>) = valUsed (kvHolder ex_map) \<and>
          length d' = length (data (kvHolder ex_map)) \<and>
          (\<forall>i < length (data (kvHolder ex_map)).
               \<not> (unat (offset (groups ex_map ! probe_group ex_map 5 0 ! 0) * 4 + 16) \<le> i \<and>
                    i < unat (offset (groups ex_map ! probe_group ex_map 5 0 ! 0) * 4 + 16) + 4) \<and>
               \<not> (unat ((0x02000006 AND IdxOffsetMask) * 4) \<le> i \<and>
                    i < unat ((0x02000006 AND IdxOffsetMask) * 4) + length [121, 121 :: byte])
               \<longrightarrow> d' ! i = data (kvHolder ex_map) ! i) \<and>
          slice d' (unat ((0x02000006 AND IdxOffsetMask) * 4))
            (unat ((0x02000006 AND IdxOffsetMask) * 4) + length [121, 121 :: byte]) =
            Some [121, 121] \<and>
          LoadUint32_at d' (unat (offset (groups ex_map ! probe_group ex_map 5 0 ! 0) * 4 + 16)) =
            Some ((0x02000006 AND IdxOffsetMask) + push_bit 24 (of_nat (length [121, 121 :: byte]))))"
proof -
  have h1: "shape ex_map" by code_simp
  have h2: "probe_hits ex_map ex_key 5 0 0" by code_simp
  have h3: "consts_ordered ex_consts" by code_simp
  have h4: "LoadUint32_at (data (kvHolder ex_map))
     (unat (offset (groups ex_map ! probe_group ex_map 5 0 ! 0) * 4 + 16)) = Some 0x02000006"
    by code_simp
  have h5: "unat ((0x02000006 AND IdxOffsetMask) * 4) \<le> length (data (kvHolder ex_map))"
    by code_simp
  have h6: "valType (groups ex_map ! probe_group ex_map 5 0 ! 0) = 0" by code_simp
  have h7: "length [121, 121 :: byte] < unat (overShortSize ex_consts)" by code_simp
  have h8: "length [121, 121 :: byte] \<le> unat (capOrBigSize (groups ex_map ! probe_group ex_map 5 0 ! 0) * 4)"
    by code_simp
  have h9: "unat ((0x02000006 AND IdxOffsetMask) * 4) + length [121, 121 :: byte]
     \<le> length (data (kvHolder ex_map))" by code_simp
  have h10: "unat (offset (groups ex_map ! probe_group ex_map 5 0 ! 0) * 4 + 16) + 4
     \<le> unat ((0x02000006 AND IdxOffsetMask) * 4)" by code_simp
  show ?thesis
    using h1 h2 h3 h4 h5 h6 h7 h8 h9 h10 Put_in_place [OF h1 h2 h3 h4 h5 h6 h7 h8] by blast
qed

text \<open>
  C9. Whenever a guard of \<open>Eliminate\<close> fires (the miss rate is below \<open>eliminateMissRate\<close>
  with a positive query count, or the items memory usage is below \<open>eliminateStart\<close>, or
  the computed drop count is 0), \<open>Eliminate\<close> returns \<open>delCount = 0\<close> with the skip reason
  of the first guard that fires and leaves the shard as it was.
\<close>

theorem Eliminate_skips:
  assumes "guard1 p m \<or> guard2 p m \<or> guard3 p m"
  shows "Eliminate p m =
           Return ((0, if guard1 p m then skipReason1
                       else if guard2 p m then skipReason2 else skipReason3), m)"
  using assms by (auto simp: Eliminate_def guard1_def guard2_def guard3_def Let_def)

theorem Eliminate_skips_witness:
  "(guard1 ex_policy ex_map \<or> guard2 ex_policy ex_map \<or> guard3 ex_policy ex_map) \<and>
   Eliminate ex_policy ex_map = Return ((0, skipReason2), ex_map)"
proof -
  have g1: "\<not> guard1 ex_policy ex_map" by code_simp
  have g2: "guard2 ex_policy ex_map" by code_simp
  show ?thesis using g1 g2 Eliminate_skips [of ex_policy ex_map] by simp
qed

text \<open>
  C10. For a key that no occupied slot of the table holds, \<open>Delete\<close> returns \<open>false\<close> and
  the shard it leaves is the shard it was given (control bytes, counters, descriptors,
  \<open>resident\<close>, \<open>dead\<close>, the arena with \<open>items\<close>, \<open>tail\<close>, \<open>valUsed\<close>, and both query
  counters). The table has to hold an empty slot somewhere, as it does below the load
  limit: without one the probe loop of \<open>Delete\<close> does not return.
\<close>

theorem Delete_absent_key:
  assumes "shape m" and "key_absent m key"
    and "\<exists>g<length (groups m). has_empty m g"
  shows "Delete m l key = Return (False, m)"
proof -
  from key_absent_probe_misses [OF assms] obtain n where "probe_misses m key l n" ..
  from probe_misses_Miss [OF assms(1) this] show ?thesis
    by (simp add: Delete_def)
qed

theorem Delete_absent_key_witness:
  "shape ex_map \<and> key_absent ex_map (replicate 16 0) \<and>
   (\<exists>g<length (groups ex_map). has_empty ex_map g) \<and>
   Delete ex_map 5 (replicate 16 0) = Return (False, ex_map)"
proof -
  have h1: "shape ex_map" by code_simp
  have h2: "key_absent ex_map (replicate 16 0)" by code_simp
  have "has_empty ex_map 0" by code_simp
  then have h3: "\<exists>g<length (groups ex_map). has_empty ex_map g"
    by (auto simp: ex_map_def)
  show ?thesis using h1 h2 h3 Delete_absent_key [OF h1 h2 h3] by simp
qed

end
